theory Spec2Isabelle
  imports Complex_Main "HOL-Library.Sublist"
begin

section \<open>VariousDBSCAN: progressive density clustering over a cluster tree\<close>

text \<open>
  The development embeds \<^verbatim>\<open>variousDBSCAN.py\<close>: the class \<^verbatim>\<open>VariousDBSCAN\<close> with its
  constructor, \<^verbatim>\<open>run_dbscan_on_node\<close>, \<^verbatim>\<open>remove_child_cluster_points_from_parents\<close> and
  \<^verbatim>\<open>fit\<close>.

  \<^item> The \<^verbatim>\<open>anytree\<close> node is a recursive datatype. A node object is identified by its
    path from the root (the list of child positions); its depth is the length of the path.
  \<^item> The density clustering primitive (\<^verbatim>\<open>sklearn.cluster.DBSCAN\<close>) is external. It is a
    parameter of every function that calls it: it takes the sub-matrix, the radius and the
    minimum-neighbour count and returns the labels, or fails.
  \<^item> Every exception of the source is a value of \<open>error\<close>. The state of the object after a
    raised exception is not modelled.
  \<^item> The radius is a real number where the source has a float: the binary64 values are
    among the reals. The one operation the program itself performs on a radius is the halving
    of the default update function; \<open>py_halve\<close> gives its binary64 result, which is the exact
    half except at the bottom of the subnormal range, where the half is rounded. Infinities
    and NaN are not modelled.
  \<^item> Python builds the point lists by iterating over a \<^verbatim>\<open>set\<close>, in hash order. The model
    keeps the order of the list the set was built from. The statements below are about the
    indices a list holds and about its length, which do not depend on that order.
  \<^item> \<^verbatim>\<open>max_depth\<close> is an integer or \<^verbatim>\<open>np.inf\<close>.
\<close>

subsection \<open>Python values and errors\<close>

datatype error = AssertionError | ValueError | IndexError | UpstreamPrimitiveFailure

text \<open>The values the argument \<^verbatim>\<open>min_points\<close> can take. \<^verbatim>\<open>bool\<close> is a subclass of
  \<^verbatim>\<open>int\<close> in Python: \<^verbatim>\<open>isinstance(True, int)\<close> holds and \<^verbatim>\<open>True > 0\<close> holds. The integer
  types of numpy (\<^verbatim>\<open>np.int64(3)\<close>, what indexing or reducing an integer array gives) are not
  subclasses of \<^verbatim>\<open>int\<close>: \<^verbatim>\<open>isinstance(np.int64(3), int)\<close> does not hold.\<close>

datatype pyval = PyInt int | PyBool bool | PyNumpyInt int | PyFloat real | PyStr string | PyNone

fun isinstance_int :: "pyval \<Rightarrow> bool" where
  "isinstance_int (PyInt k) = True"
| "isinstance_int (PyBool b) = True"
| "isinstance_int v = False"

text \<open>The integer an instance of \<^verbatim>\<open>int\<close> stands for. The test \<^verbatim>\<open>min_points > 0\<close> is
  evaluated only on an instance of \<^verbatim>\<open>int\<close> (\<^verbatim>\<open>and\<close> does not evaluate its second operand
  when the first is false).\<close>

fun int_value :: "pyval \<Rightarrow> int" where
  "int_value (PyInt k) = k"
| "int_value (PyBool b) = (if b then 1 else 0)"
| "int_value v = 0"

text \<open>\<^verbatim>\<open>str(i)\<close> for a non-negative integer: its decimal digits.\<close>

fun str :: "nat \<Rightarrow> string" where
  "str n = (if n < 10 then [char_of (48 + n)] else str (n div 10) @ [char_of (48 + n mod 10)])"

declare str.simps [simp del]

subsection \<open>The cluster tree\<close>

datatype node = Node (name: string) (clustered_points: "nat list") (children: "node list")

type_synonym path = "nat list"

text \<open>The node object reached from \<open>t\<close> along a path, if there is one, and its
  \<^verbatim>\<open>clustered_points\<close>. The paths the program follows are taken from \<open>descendants\<close> and
  lead to a node; a path that leads to no node has no points.\<close>

fun node_at :: "node \<Rightarrow> path \<Rightarrow> node option" where
  "node_at t [] = Some t"
| "node_at (Node n pts cs) (i # p) = (if i < length cs then node_at (cs ! i) p else None)"

definition points_at :: "node \<Rightarrow> path \<Rightarrow> nat list" where
  "points_at t p = (case node_at t p of None \<Rightarrow> [] | Some nd \<Rightarrow> clustered_points nd)"

text \<open>\<^verbatim>\<open>node.descendants\<close>: all nodes below \<open>t\<close> in pre-order, \<open>t\<close> itself excluded.\<close>

fun descendants :: "node \<Rightarrow> path list"
  and descendants_from :: "nat \<Rightarrow> node list \<Rightarrow> path list" where
  "descendants (Node n pts cs) = descendants_from 0 cs"
| "descendants_from i [] = []"
| "descendants_from i (c # cs) =
     ([i] # map ((#) i) (descendants c)) @ descendants_from (Suc i) cs"

text \<open>\<^verbatim>\<open>node.anchestors\<close> (the library's alias of \<^verbatim>\<open>ancestors\<close>): the nodes on the way
  from the root to the parent, root first.\<close>

definition anchestors :: "path \<Rightarrow> path list" where
  "anchestors p = map (\<lambda>k. take k p) [0..<length p]"

text \<open>\<^verbatim>\<open>Node(name, clustered_points=pts, parent=parent_node)\<close> appends the new node to the
  children of its parent.\<close>

fun add_children :: "path \<Rightarrow> node list \<Rightarrow> node \<Rightarrow> node" where
  "add_children [] new (Node n pts cs) = Node n pts (cs @ new)"
| "add_children (i # p) new (Node n pts cs) =
     (if i < length cs then Node n pts (cs[i := add_children p new (cs ! i)])
      else Node n pts cs)"

text \<open>The assignment \<^verbatim>\<open>node.clustered_points = pts\<close> to the node at a path.\<close>

fun set_points :: "path \<Rightarrow> nat list \<Rightarrow> node \<Rightarrow> node" where
  "set_points [] new (Node n pts cs) = Node n new cs"
| "set_points (i # p) new (Node n pts cs) =
     (if i < length cs then Node n pts (cs[i := set_points p new (cs ! i)])
      else Node n pts cs)"

subsection \<open>The clustering object\<close>

text \<open>The fields of \<^verbatim>\<open>VariousDBSCAN\<close>. The field \<open>invocations\<close> is not in the source: it is
  the history of the calls made to the external primitive (depth of the node that was
  re-clustered, radius, point subset), of which the source keeps only the length,
  \<open>dbscan_performed\<close>.\<close>

record variousDBSCAN =
  distance_matrix :: "real list list"
  epsilon :: real
  min_points :: int
  n_points :: nat
  progressive_clustering :: node
  clusters :: "nat list list option"
  update_epsilon_func :: "real \<Rightarrow> real"
  dbscan_performed :: nat
  invocations :: "(nat \<times> real \<times> nat list) list"

type_synonym primitive = "real list list \<Rightarrow> real \<Rightarrow> int \<Rightarrow> error + int list"

text \<open>The default update function \<^verbatim>\<open>lambda x: x/2\<close> on a binary64 float. Every finite
  binary64 value is an integer multiple of \<open>2 ^ - 1074\<close>, the smallest positive subnormal.
  Halving an even multiple is exact. Halving an odd multiple \<open>m\<close> falls half-way between two
  neighbouring multiples and is rounded to the even one (so \<^verbatim>\<open>5e-324 / 2 == 0.0\<close>). On a
  real that is not an odd multiple of \<open>2 ^ - 1074\<close> the function is the exact half.\<close>

definition subnormal_scale :: real where
  "subnormal_scale = 2 ^ 1074"

definition py_halve :: "real \<Rightarrow> real" where
  "py_halve x =
     (let m = x * subnormal_scale in
      if of_int \<lfloor>m\<rfloor> = m \<and> odd \<lfloor>m\<rfloor>
      then of_int (let k = \<lfloor>m\<rfloor> div 2 in if even k then k else k + 1) / subnormal_scale
      else x / 2)"

definition init :: "real list list \<Rightarrow> real \<Rightarrow> pyval \<Rightarrow> (real \<Rightarrow> real) option
    \<Rightarrow> error + variousDBSCAN" where
  "init dm original_epsilon mp update_epsilon =
     (if isinstance_int mp \<and> int_value mp > 0 then
        Inr \<lparr> distance_matrix = dm,
              epsilon = original_epsilon,
              min_points = int_value mp,
              n_points = length dm,
              progressive_clustering = Node '''' [] [],
              clusters = None,
              update_epsilon_func =
                (case update_epsilon of None \<Rightarrow> py_halve | Some f \<Rightarrow> f),
              dbscan_performed = 0,
              invocations = [] \<rparr>
      else Inl AssertionError)"

subsection \<open>One level of tree growth\<close>

text \<open>\<^verbatim>\<open>distance_matrix[points_idx][:, points_idx]\<close>: the rows, then the columns, of the
  subset; an index outside the matrix raises.\<close>

definition submatrix :: "real list list \<Rightarrow> nat list \<Rightarrow> error + real list list" where
  "submatrix dm idx =
     (if \<exists>i\<in>set idx. length dm \<le> i then Inl IndexError
      else let rows = map (\<lambda>i. dm ! i) idx in
        if \<exists>r\<in>set rows. \<exists>j\<in>set idx. length r \<le> j then Inl IndexError
        else Inr (map (\<lambda>r. map (\<lambda>j. r ! j) idx) rows))"

text \<open>\<^verbatim>\<open>max(labels)\<close> raises on an empty sequence.\<close>

fun py_max :: "int list \<Rightarrow> error + int" where
  "py_max [] = Inl ValueError"
| "py_max (x # xs) = Inr (fold max xs x)"

text \<open>The body of the loop over \<^verbatim>\<open>range(max(labels) + 1)\<close>: the positions carrying the
  label, mapped back to the original indices.\<close>

definition local_idx :: "int list \<Rightarrow> nat \<Rightarrow> nat list" where
  "local_idx labels cluster_i = filter (\<lambda>k. labels ! k = int cluster_i) [0..<length labels]"

fun cluster_nodes :: "nat list \<Rightarrow> int list \<Rightarrow> nat list \<Rightarrow> error + node list" where
  "cluster_nodes points_idx labels [] = Inr []"
| "cluster_nodes points_idx labels (cluster_i # rest) =
     (if \<exists>k\<in>set (local_idx labels cluster_i). length points_idx \<le> k then Inl IndexError
      else case cluster_nodes points_idx labels rest of
             Inl e \<Rightarrow> Inl e
           | Inr ns \<Rightarrow>
               Inr (Node (str cluster_i)
                         (map (\<lambda>k. points_idx ! k) (local_idx labels cluster_i)) [] # ns))"

definition run_dbscan_on_node ::
    "primitive \<Rightarrow> variousDBSCAN \<Rightarrow> nat list \<Rightarrow> real \<Rightarrow> path \<Rightarrow> error + variousDBSCAN" where
  "run_dbscan_on_node cluster st points_idx new_eps parent_node =
     (case submatrix (distance_matrix st) points_idx of
        Inl e \<Rightarrow> Inl e
      | Inr sub \<Rightarrow>
         (case cluster sub new_eps (min_points st) of
            Inl e \<Rightarrow> Inl e
          | Inr labels \<Rightarrow>
             (case py_max labels of
                Inl e \<Rightarrow> Inl e
              | Inr m \<Rightarrow>
                 (case cluster_nodes points_idx labels [0..<nat (m + 1)] of
                    Inl e \<Rightarrow> Inl e
                  | Inr new \<Rightarrow>
                      Inr (st\<lparr> dbscan_performed := dbscan_performed st + 1,
                               invocations := invocations st
                                  @ [(length parent_node, new_eps, points_idx)],
                               progressive_clustering :=
                                  add_children parent_node new (progressive_clustering st) \<rparr>)))))"

subsection \<open>Overlap resolution\<close>

text \<open>\<^verbatim>\<open>list(set(xs).difference(ys))\<close>.\<close>

definition py_difference :: "nat list \<Rightarrow> nat list \<Rightarrow> nat list" where
  "py_difference xs ys = filter (\<lambda>x. x \<notin> set ys) (remdups xs)"

text \<open>The inner loop for one \<^verbatim>\<open>child_node\<close>: every ancestor, root first, loses the points
  the child holds at that moment. (The test \<^verbatim>\<open>parent_node is not None\<close> of the source always
  holds: the ancestors are nodes.)\<close>

definition remove_from_parents :: "path \<Rightarrow> node \<Rightarrow> node" where
  "remove_from_parents child_node t =
     fold (\<lambda>parent_node t'.
             set_points parent_node
               (py_difference (points_at t' parent_node) (points_at t' child_node)) t')
          (anchestors child_node) t"

definition remove_child_cluster_points_from_parents :: "variousDBSCAN \<Rightarrow> variousDBSCAN" where
  "remove_child_cluster_points_from_parents st =
     (let nodes = sort_key (\<lambda>x. - int (length x)) (descendants (progressive_clustering st))
      in st\<lparr> progressive_clustering := fold remove_from_parents nodes (progressive_clustering st) \<rparr>)"

subsection \<open>The driver\<close>

text \<open>\<^verbatim>\<open>max_depth\<close>: \<^verbatim>\<open>np.inf\<close> by default, or a number.\<close>

datatype max_depth = NpInf | MaxDepth int

fun depth_reached :: "nat \<Rightarrow> max_depth \<Rightarrow> bool" where
  "depth_reached depth NpInf = False"
| "depth_reached depth (MaxDepth k) = (k \<le> int depth)"

text \<open>The loop over \<^verbatim>\<open>next_nodes\<close>: each node is re-clustered on the points it holds when
  its turn comes, and the new clusters become its children.\<close>

fun run_level :: "primitive \<Rightarrow> real \<Rightarrow> path list \<Rightarrow> variousDBSCAN \<Rightarrow> error + variousDBSCAN" where
  "run_level cluster new_eps [] st = Inr st"
| "run_level cluster new_eps (bottom_node # rest) st =
     (case run_dbscan_on_node cluster st
             (points_at (progressive_clustering st) bottom_node) new_eps bottom_node of
        Inl e \<Rightarrow> Inl e
      | Inr st' \<Rightarrow> run_level cluster new_eps rest st')"

text \<open>The \<^verbatim>\<open>while True\<close> loop; it need not terminate, so its result is an option.\<close>

partial_function (option) fit_loop ::
    "primitive \<Rightarrow> max_depth \<Rightarrow> nat \<Rightarrow> real \<Rightarrow> variousDBSCAN \<Rightarrow> (error + variousDBSCAN) option" where
  "fit_loop cluster md depth new_eps st =
     (if depth_reached depth md then Some (Inr st)
      else let next_nodes = filter (\<lambda>nd. length nd = depth)
                                   (descendants (progressive_clustering st))
           in if length next_nodes = 0 then Some (Inr st)
              else let new_eps' = update_epsilon_func st new_eps
                   in (case run_level cluster new_eps' next_nodes st of
                         Inl e \<Rightarrow> Some (Inl e)
                       | Inr st' \<Rightarrow> fit_loop cluster md (depth + 1) new_eps' st'))"

declare fit_loop.simps [code]

text \<open>The last two statements of \<^verbatim>\<open>fit\<close>: the surviving nodes, deepest first, and their
  points.\<close>

definition extract_nodes :: "variousDBSCAN \<Rightarrow> path list" where
  "extract_nodes st =
     filter (\<lambda>nd. int (length (points_at (progressive_clustering st) nd)) \<ge> min_points st)
            (sort_key (\<lambda>x. - (int (length x) + 1)) (descendants (progressive_clustering st)))"

definition extraction :: "variousDBSCAN \<Rightarrow> variousDBSCAN \<times> nat list list" where
  "extraction st =
     (let cl = map (points_at (progressive_clustering st)) (extract_nodes st)
      in (st\<lparr> clusters := Some cl \<rparr>, cl))"

definition fit :: "primitive \<Rightarrow> variousDBSCAN \<Rightarrow> max_depth
    \<Rightarrow> (error + variousDBSCAN \<times> nat list list) option" where
  "fit cluster st md =
     (case run_dbscan_on_node cluster st [0..<n_points st] (epsilon st) [] of
        Inl e \<Rightarrow> Some (Inl e)
      | Inr st1 \<Rightarrow>
         (case fit_loop cluster md 1 (epsilon st) st1 of
            None \<Rightarrow> None
          | Some (Inl e) \<Rightarrow> Some (Inl e)
          | Some (Inr st2) \<Rightarrow>
              Some (Inr (extraction (remove_child_cluster_points_from_parents st2)))))"

subsection \<open>The specification's vocabulary\<close>

text \<open>A positive integer, in the words of the specification: an integer value that is
  greater than zero. The integers a Python program handles are the instances of \<^verbatim>\<open>int\<close>
  and the numpy integers; a truth value, a float, a string and \<^verbatim>\<open>None\<close> are not integers.\<close>

definition positive_integer :: "pyval \<Rightarrow> bool" where
  "positive_integer v = (case v of PyInt k \<Rightarrow> 0 < k | PyNumpyInt k \<Rightarrow> 0 < k | _ \<Rightarrow> False)"

text \<open>The contract of the primitive in the specification: one label per row of the
  sub-matrix, each label a cluster label \<open>0..k-1\<close> or the noise label. A negative label is
  noise; the cluster labels are numbered from zero without a gap, as the library's DBSCAN
  numbers them.\<close>

definition numbered_from_zero :: "int list \<Rightarrow> bool" where
  "numbered_from_zero labels \<longleftrightarrow> (\<forall>l\<in>set labels. \<forall>i\<in>{0..l}. i \<in> set labels)"

definition primitive_contract :: "primitive \<Rightarrow> bool" where
  "primitive_contract cluster \<longleftrightarrow>
     (\<forall>sub eps mp labels. cluster sub eps mp = Inr labels \<longrightarrow>
        length labels = length sub \<and> numbered_from_zero labels)"

text \<open>The points a node is left with once every child of the set \<open>S\<close> has been removed
  from its ancestors, computed from the tree \<open>t\<close> as it was before: the points of the node
  that are in no descendant of it among \<open>S\<close>.\<close>

definition resolved_points :: "node \<Rightarrow> path set \<Rightarrow> path \<Rightarrow> nat list" where
  "resolved_points t S a =
     (if \<exists>d\<in>S. strict_prefix a d
      then filter (\<lambda>x. \<forall>d\<in>S. strict_prefix a d \<longrightarrow> x \<notin> set (points_at t d))
                  (remdups (points_at t a))
      else points_at t a)"

text \<open>The nesting of the tree before overlap resolution, read on the paths: the points of
  two siblings are disjoint, the points of a node below the root contain the points of each
  of its children, and no list of points repeats an index. (A path that leads to no node
  has no points.)\<close>

definition nested_disjoint :: "node \<Rightarrow> bool" where
  "nested_disjoint t \<longleftrightarrow>
     (\<forall>c i j. i \<noteq> j \<longrightarrow> set (points_at t (c @ [i])) \<inter> set (points_at t (c @ [j])) = {}) \<and>
     (\<forall>q i. q \<noteq> [] \<longrightarrow> set (points_at t (q @ [i])) \<subseteq> set (points_at t q)) \<and>
     (\<forall>q. distinct (points_at t q))"

subsection \<open>A worked run\<close>

text \<open>Five points on a line, at 0, 3/16, 10/16, 13/16 and 20/16, with their distances. With
  two neighbours required (the point itself counts), DBSCAN puts the five points in one
  cluster at radius 1/2, splits them into two pairs and one noise point at radius 1/4, and
  finds only noise in a pair at radius 1/8 and in a single point. The example primitive
  gives these labels.\<close>

definition example_cluster :: primitive where
  "example_cluster sub eps mp =
     Inr (if 1 / 2 \<le> eps then replicate (length sub) 0
          else if 1 / 4 \<le> eps \<and> length sub = 5 then [0, 0, 1, 1, - 1]
          else replicate (length sub) (- 1))"

definition example_positions :: "real list" where
  "example_positions = [0, 3 / 16, 10 / 16, 13 / 16, 20 / 16]"

definition example_matrix :: "real list list" where
  "example_matrix = map (\<lambda>x. map (\<lambda>y. \<bar>x - y\<bar>) example_positions) example_positions"

definition example_state :: variousDBSCAN where
  "example_state = \<lparr> distance_matrix = example_matrix, epsilon = 1 / 2, min_points = 2,
      n_points = 5, progressive_clustering = Node '''' [] [], clusters = None,
      update_epsilon_func = py_halve, dbscan_performed = 0, invocations = [] \<rparr>"

text \<open>Points that coincide: all distances are zero. At a positive radius every point has
  every point as a neighbour, so DBSCAN puts them all in the cluster 0 when they are at least
  the required number, and labels them all noise otherwise. The library refuses a radius
  or a neighbour count that is not positive.\<close>

definition coincident_cluster :: primitive where
  "coincident_cluster sub eps mp =
     (if eps \<le> 0 \<or> mp \<le> 0 then Inl UpstreamPrimitiveFailure
      else Inr (replicate (length sub) (if mp \<le> int (length sub) then 0 else - 1)))"

text \<open>One point, and a radius of eleven times the smallest positive binary64 value.\<close>

definition underflow_state :: variousDBSCAN where
  "underflow_state = \<lparr> distance_matrix = [[0]], epsilon = 11 / subnormal_scale,
      min_points = 1, n_points = 1, progressive_clustering = Node '''' [] [], clusters = None,
      update_epsilon_func = py_halve, dbscan_performed = 0, invocations = [] \<rparr>"

text \<open>The tree of the example run as the driver leaves it, before overlap resolution.\<close>

definition example_tree :: node where
  "example_tree =
     Node '''' [] [Node ''0'' [0, 1, 2, 3, 4] [Node ''0'' [0, 1] [], Node ''1'' [2, 3] []]]"

text \<open>What a run leaves behind that can be compared by evaluation: the tree, the counter,
  the history of invocations and the returned clusters.\<close>

definition observe :: "(error + variousDBSCAN \<times> nat list list) option
    \<Rightarrow> (error + node \<times> nat \<times> (nat \<times> real \<times> nat list) list \<times> nat list list) option" where
  "observe r = map_option (map_sum id
      (\<lambda>(s, cl). (progressive_clustering s, dbscan_performed s, invocations s, cl))) r"

section \<open>Properties\<close>

subsection \<open>Halving a binary64 float\<close>

lemma subnormal_scale_numeral [code]:
  "subnormal_scale = 202402253307310618352495346718917307049556649764142118356901358027430339567995346891960383701437124495187077864316811911389808737385793476867013399940738509921517424276566361364466907742093216341239767678472745068562007483424692698618103355649159556340810056512358769552333414615230502532186327508646006263307707741093494784"
  by (simp add: subnormal_scale_def)

lemma subnormal_scale_pos: "0 < subnormal_scale"
  unfolding subnormal_scale_def by (rule zero_less_power) simp

lemma py_halve_grid:
  "py_halve (of_int m / subnormal_scale) =
     of_int (if odd m then (if even (m div 2) then m div 2 else m div 2 + 1) else m div 2)
       / subnormal_scale"
proof -
  have m: "of_int m / subnormal_scale * subnormal_scale = (of_int m :: real)"
    using subnormal_scale_pos by simp
  show ?thesis
  proof (cases "odd m")
    case True
    then show ?thesis unfolding py_halve_def Let_def m by simp
  next
    case False
    then have "real_of_int m / 2 = of_int (m div 2)" by (auto elim: evenE)
    then have "(of_int m :: real) / subnormal_scale / 2 = of_int (m div 2) / subnormal_scale"
      by (simp add: field_simps)
    with False show ?thesis unfolding py_halve_def Let_def m by (simp only: floor_of_int) simp
  qed
qed

lemma py_halve_funpow:
  "(py_halve ^^ d) (of_int (m * 2 ^ d) / subnormal_scale) = of_int m / subnormal_scale"
proof (induction d arbitrary: m)
  case 0
  show ?case by simp
next
  case (Suc d)
  have "py_halve (of_int (m * 2 ^ Suc d) / subnormal_scale)
      = of_int (m * 2 ^ d) / subnormal_scale"
    by (simp only: py_halve_grid) simp
  then show ?case using Suc.IH [of m] by (simp only: funpow_Suc_right o_apply)
qed

lemma py_halve_funpow_exact:
  assumes "e = of_int (m * 2 ^ d) / subnormal_scale"
  shows "(py_halve ^^ d) e = e / 2 ^ d"
  unfolding assms py_halve_funpow by simp

lemma py_halve_funpow_grid:
  "\<exists>m'. (py_halve ^^ d) (of_int m / subnormal_scale) = of_int m' / subnormal_scale"
proof (induction d)
  case 0
  show ?case by auto
next
  case (Suc d)
  then obtain m' where "(py_halve ^^ d) (of_int m / subnormal_scale) = of_int m' / subnormal_scale"
    by blast
  then show ?case by (simp only: funpow.simps o_apply py_halve_grid) blast
qed

lemma py_halve_funpow_inexact:
  assumes "e = of_int m / subnormal_scale" and "(py_halve ^^ d) e = e / 2 ^ d"
  shows "\<exists>m'. e = of_int (m' * 2 ^ d) / subnormal_scale"
proof -
  from py_halve_funpow_grid [of d m] assms(1) obtain m' where
    "(py_halve ^^ d) e = of_int m' / subnormal_scale" by auto
  with assms(2) have "e / 2 ^ d = of_int m' / subnormal_scale" by simp
  then have "e = of_int (m' * 2 ^ d) / subnormal_scale"
    by (simp add: field_simps)
  then show ?thesis ..
qed

lemma half_on_grid:
  assumes "d \<le> 1073"
  shows "\<exists>m::int. (1 / 2 :: real) = of_int (m * 2 ^ d) / subnormal_scale"
proof (rule exI [of _ "2 ^ (1073 - d)"])
  have "(2::real) ^ (1073 - d) * 2 ^ d = 2 ^ 1073"
    using assms by (simp add: power_add [symmetric])
  moreover have "subnormal_scale = 2 * 2 ^ 1073"
    unfolding subnormal_scale_def by (simp only: power_Suc [symmetric]) simp
  ultimately show "(1 / 2 :: real) = of_int (2 ^ (1073 - d) * 2 ^ d) / subnormal_scale"
    by (simp del: power_Suc)
qed

lemma py_halve_underflow:
  "py_halve (11 / subnormal_scale) = 6 / subnormal_scale"
  "py_halve (6 / subnormal_scale) = 3 / subnormal_scale"
  "py_halve (3 / subnormal_scale) = 2 / subnormal_scale"
  using py_halve_grid [of 11] py_halve_grid [of 6] py_halve_grid [of 3] by simp_all

lemma subnormal_scale_not_le: "\<not> subnormal_scale \<le> 0"
  using subnormal_scale_pos by simp

subsection \<open>Auxiliary facts\<close>


lemma fit_loop_invariant_aux:
  assumes step: "\<And>d e s s'. I d e s \<Longrightarrow> \<not> depth_reached d md0 \<Longrightarrow>
        filter (\<lambda>nd. length nd = d) (descendants (progressive_clustering s)) \<noteq> [] \<Longrightarrow>
        run_level cluster0 (update_epsilon_func s e)
          (filter (\<lambda>nd. length nd = d) (descendants (progressive_clustering s))) s = Inr s' \<Longrightarrow>
        I (d + 1) (update_epsilon_func s e) s'"
  shows "fit_loop cluster md depth new_eps st = Some y \<Longrightarrow> cluster = cluster0 \<Longrightarrow> md = md0 \<Longrightarrow>
     I depth new_eps st \<Longrightarrow> y = Inr st' \<Longrightarrow>
     \<exists>d e. I d e st' \<and>
     (depth_reached d md0 \<or>
      filter (\<lambda>nd. length nd = d) (descendants (progressive_clustering st')) = [])"
proof (induction cluster md depth new_eps st y rule: fit_loop.raw_induct [rotated 1, consumes 1])
  case (1 loop c m d e s y)
  let ?stop = "depth_reached d md0 \<or>
      filter (\<lambda>nd. length nd = d) (descendants (progressive_clustering s)) = []"
  note IH = "1.IH" and body = "1.hyps"
  from "1.prems" have c: "c = cluster0" and m: "m = md0" and inv: "I d e s" and y: "y = Inr st'"
    by simp_all
  show ?case
  proof (cases ?stop)
    case True
    then have "st' = s" using body y m by (auto simp: Let_def split: if_splits)
    then show ?thesis using inv True by blast
  next
    case False
    let ?next = "filter (\<lambda>nd. length nd = d) (descendants (progressive_clustering s))"
    from False body y m c obtain s1 where
      r: "run_level cluster0 (update_epsilon_func s e) ?next s = Inr s1" and
      l: "loop cluster0 md0 (d + 1) (update_epsilon_func s e) s1 = Some (Inr st')"
      by (auto simp: Let_def split: if_splits sum.splits)
    have "I (d + 1) (update_epsilon_func s e) s1"
      using step [OF inv _ _ r] False by simp
    with IH [OF l] show ?thesis by simp
  qed
qed

lemma fit_loop_invariant:
  assumes run: "fit_loop cluster md depth new_eps st = Some (Inr st')"
    and init: "I depth new_eps st"
    and step: "\<And>d e s s'. I d e s \<Longrightarrow> \<not> depth_reached d md \<Longrightarrow>
        filter (\<lambda>nd. length nd = d) (descendants (progressive_clustering s)) \<noteq> [] \<Longrightarrow>
        run_level cluster (update_epsilon_func s e)
          (filter (\<lambda>nd. length nd = d) (descendants (progressive_clustering s))) s = Inr s' \<Longrightarrow>
        I (d + 1) (update_epsilon_func s e) s'"
  shows "\<exists>d e. I d e st' \<and>
     (depth_reached d md \<or>
      filter (\<lambda>nd. length nd = d) (descendants (progressive_clustering st')) = [])"
  using fit_loop_invariant_aux [where I = I, OF step run refl refl init refl] by blast

lemma run_dbscan_on_node_Inr:
  assumes "run_dbscan_on_node cluster st points_idx new_eps parent_node = Inr st'"
  obtains sub labels m new where
    "submatrix (distance_matrix st) points_idx = Inr sub"
    "cluster sub new_eps (min_points st) = Inr labels"
    "py_max labels = Inr m"
    "cluster_nodes points_idx labels [0..<nat (m + 1)] = Inr new"
    "st' = st\<lparr> dbscan_performed := dbscan_performed st + 1,
              invocations := invocations st @ [(length parent_node, new_eps, points_idx)],
              progressive_clustering := add_children parent_node new (progressive_clustering st) \<rparr>"
  using assms unfolding run_dbscan_on_node_def
  by (auto split: sum.splits)

lemma run_dbscan_on_node_params:
  assumes "run_dbscan_on_node cluster st points_idx new_eps parent_node = Inr st'"
  shows "min_points st' = min_points st \<and> epsilon st' = epsilon st \<and>
     update_epsilon_func st' = update_epsilon_func st \<and> n_points st' = n_points st \<and>
     distance_matrix st' = distance_matrix st"
  using assms by (auto elim!: run_dbscan_on_node_Inr)

lemma run_level_params:
  "run_level cluster e ps st = Inr st' \<Longrightarrow>
     min_points st' = min_points st \<and> epsilon st' = epsilon st \<and>
     update_epsilon_func st' = update_epsilon_func st \<and> n_points st' = n_points st \<and>
     distance_matrix st' = distance_matrix st"
proof (induction ps arbitrary: st)
  case Nil
  then show ?case by simp
next
  case (Cons p ps)
  then show ?case
    by (auto split: sum.splits dest!: run_dbscan_on_node_params)
qed

lemma fit_loop_params:
  assumes "fit_loop cluster md depth new_eps st = Some (Inr st')"
  shows "min_points st' = min_points st \<and> epsilon st' = epsilon st \<and>
     update_epsilon_func st' = update_epsilon_func st \<and> n_points st' = n_points st \<and>
     distance_matrix st' = distance_matrix st"
proof -
  let ?I = "\<lambda>(d::nat) (e::real) s. min_points s = min_points st \<and> epsilon s = epsilon st \<and>
     update_epsilon_func s = update_epsilon_func st \<and> n_points s = n_points st \<and>
     distance_matrix s = distance_matrix st"
  have "\<exists>d e. ?I d e st' \<and> (depth_reached d md \<or>
      filter (\<lambda>nd. length nd = d) (descendants (progressive_clustering st')) = [])"
  proof (rule fit_loop_invariant [OF assms, where I = ?I])
    show "?I depth new_eps st" by simp
  next
    fix d e s s'
    assume "?I d e s" and "run_level cluster (update_epsilon_func s e)
          (filter (\<lambda>nd. length nd = d) (descendants (progressive_clustering s))) s = Inr s'"
    then show "?I (d + 1) (update_epsilon_func s e) s'"
      using run_level_params by metis
  qed
  then show ?thesis by blast
qed

lemma fit_Inr:
  assumes "fit cluster st md = Some (Inr (st', cl))"
  obtains st1 st2 where
    "run_dbscan_on_node cluster st [0..<n_points st] (epsilon st) [] = Inr st1"
    "fit_loop cluster md 1 (epsilon st) st1 = Some (Inr st2)"
    "(st', cl) = extraction (remove_child_cluster_points_from_parents st2)"
  using assms unfolding fit_def
  by (auto split: sum.splits option.splits)

lemma fit_min_points:
  assumes "fit cluster st md = Some (Inr (st', cl))"
  shows "min_points st' = min_points st"
proof -
  from assms obtain st1 st2 where
    1: "run_dbscan_on_node cluster st [0..<n_points st] (epsilon st) [] = Inr st1" and
    2: "fit_loop cluster md 1 (epsilon st) st1 = Some (Inr st2)" and
    3: "(st', cl) = extraction (remove_child_cluster_points_from_parents st2)"
    by (rule fit_Inr)
  from 3 have "min_points st' = min_points st2"
    by (simp add: extraction_def Let_def remove_child_cluster_points_from_parents_def)
  with fit_loop_params [OF 2] run_dbscan_on_node_params [OF 1] show ?thesis by simp
qed

lemma fit_clusters:
  assumes "fit cluster st md = Some (Inr (st', cl))"
  shows "cl = map (points_at (progressive_clustering st')) (extract_nodes st') \<and>
         clusters st' = Some cl"
proof -
  from assms obtain st2 where
    "(st', cl) = extraction (remove_child_cluster_points_from_parents st2)"
    by (rule fit_Inr)
  then show ?thesis
    by (simp add: extraction_def Let_def extract_nodes_def)
qed

lemma sorted_wrt_depth_sort_key:
  "sorted_wrt (\<lambda>p q. length q \<le> length p) (sort_key (\<lambda>x. - (int (length x) + 1)) ps)"
proof -
  have "sorted (map (\<lambda>x. - (int (length x) + 1)) (sort_key (\<lambda>x. - (int (length x) + 1)) ps))"
    by (rule sorted_sort_key)
  then have "sorted_wrt (\<lambda>p q. - (int (length p) + 1) \<le> - (int (length q) + 1))
      (sort_key (\<lambda>x. - (int (length x) + 1)) ps)"
    by (simp add: sorted_map)
  then show ?thesis
    by (rule sorted_wrt_mono_rel [rotated]) simp
qed


lemma set_descendants_aux:
  "set (descendants t) = {p. p \<noteq> [] \<and> node_at t p \<noteq> None}"
  "set (descendants_from i cs) = {(i + k) # p | k p. k < length cs \<and> node_at (cs ! k) p \<noteq> None}"
proof (induction t and i cs rule: descendants_descendants_from.induct)
  case (1 n pts cs)
  show ?case
  proof (rule set_eqI)
    fix p show "p \<in> set (descendants (Node n pts cs)) \<longleftrightarrow>
       p \<in> {p. p \<noteq> [] \<and> node_at (Node n pts cs) p \<noteq> None}"
      using 1 by (cases p) auto
  qed
next
  case (2 i)
  show ?case by simp
next
  case (3 i c cs)
  have "{(i + k) # p | k p. k < length (c # cs) \<and> node_at ((c # cs) ! k) p \<noteq> None}
      = {i # p | p. node_at c p \<noteq> None}
        \<union> {(Suc i + k) # p | k p. k < length cs \<and> node_at (cs ! k) p \<noteq> None}"
    (is "?L = ?A \<union> ?B")
  proof (intro set_eqI iffI)
    fix x assume "x \<in> ?L"
    then obtain k p where x: "x = (i + k) # p" and k: "k < length (c # cs)"
      and n: "node_at ((c # cs) ! k) p \<noteq> None" by blast
    show "x \<in> ?A \<union> ?B"
    proof (cases k)
      case 0
      with x n show ?thesis by simp
    next
      case (Suc k')
      with x k n have "x = (Suc i + k') # p \<and> k' < length cs \<and> node_at (cs ! k') p \<noteq> None"
        by simp
      then show ?thesis by blast
    qed
  next
    fix x assume "x \<in> ?A \<union> ?B"
    then show "x \<in> ?L"
    proof
      assume "x \<in> ?A"
      then obtain p where "x = (i + 0) # p" "0 < length (c # cs)" "node_at ((c # cs) ! 0) p \<noteq> None"
        by auto
      then show ?thesis by blast
    next
      assume "x \<in> ?B"
      then obtain k p where "x = (i + Suc k) # p" "Suc k < length (c # cs)"
        "node_at ((c # cs) ! Suc k) p \<noteq> None"
        by auto
      then show ?thesis by blast
    qed
  qed
  moreover have "set (descendants_from i (c # cs)) = ?A \<union> ?B"
  proof -
    have "insert [i] ((#) i ` set (descendants c)) = ?A"
    proof (intro set_eqI iffI)
      fix x assume "x \<in> insert [i] ((#) i ` set (descendants c))"
      then show "x \<in> ?A" using 3(1) by auto
    next
      fix x assume "x \<in> ?A"
      then obtain p where x: "x = i # p" and n: "node_at c p \<noteq> None" by blast
      show "x \<in> insert [i] ((#) i ` set (descendants c))"
        using x n 3(1) by (cases "p = []") auto
    qed
    moreover have "set (descendants_from i (c # cs)) =
        insert [i] ((#) i ` set (descendants c)) \<union> set (descendants_from (Suc i) cs)"
      by simp
    ultimately show ?thesis using 3(2) by (simp only:)
  qed
  ultimately show ?case by simp
qed

lemma set_descendants: "set (descendants t) = {p. p \<noteq> [] \<and> node_at t p \<noteq> None}"
  by (rule set_descendants_aux)

lemma distinct_descendants_aux:
  "distinct (descendants t)"
  "distinct (descendants_from i cs) \<and> (\<forall>p\<in>set (descendants_from i cs). p \<noteq> [] \<and> i \<le> hd p)"
proof (induction t and i cs rule: descendants_descendants_from.induct)
  case (1 n pts cs)
  then show ?case by simp
next
  case (2 i)
  show ?case by simp
next
  case (3 i c cs)
  have "distinct (map ((#) i) (descendants c))"
    using 3(1) by (simp add: distinct_map)
  moreover have "\<forall>p\<in>set (descendants_from (Suc i) cs). hd p \<noteq> i"
    using 3(2) by auto
  then have "\<forall>p\<in>set (descendants_from (Suc i) cs). p \<notin> insert [i] ((#) i ` set (descendants c))"
    by auto
  moreover have "[i] \<notin> (#) i ` set (descendants c)"
    by (auto simp: set_descendants)
  ultimately show ?case using 3(2) by auto
qed

lemma distinct_descendants: "distinct (descendants t)"
  by (rule distinct_descendants_aux)

lemma observe_Inr:
  assumes "observe r = Some (Inr (t, n, hist, cl))"
  obtains st' where "r = Some (Inr (st', cl))" "progressive_clustering st' = t"
    "dbscan_performed st' = n" "invocations st' = hist"
proof -
  from assms obtain x where r: "r = Some x" by (auto simp: observe_def)
  with assms obtain st' where "x = Inr (st', cl)" "progressive_clustering st' = t"
    "dbscan_performed st' = n" "invocations st' = hist"
    by (cases x) (auto simp: observe_def)
  with r that show ?thesis by blast
qed

lemma init_example: "init example_matrix (1 / 2) (PyInt 2) None = Inr example_state"
  by (simp add: init_def example_state_def example_matrix_def example_positions_def)

lemma observe_example:
  "observe (fit example_cluster example_state NpInf) =
     Some (Inr (Node '''' [] [Node ''0'' [4] [Node ''0'' [0, 1] [], Node ''1'' [2, 3] []]],
                4,
                [(0, 1 / 2, [0, 1, 2, 3, 4]), (1, 1 / 4, [0, 1, 2, 3, 4]),
                 (2, 1 / 8, [0, 1]), (2, 1 / 8, [2, 3])],
                [[0, 1], [2, 3]]))"
  by code_simp

lemma str_0: "str 0 = ''0''"
  by code_simp

lemma init_underflow: "init [[0]] (11 / subnormal_scale) (PyInt 1) None = Inr underflow_state"
  by (simp add: init_def underflow_state_def)

lemma observe_underflow:
  "observe (fit coincident_cluster underflow_state (MaxDepth 4))
   = Some (Inr (Node '''' []
                  [Node ''0'' [] [Node ''0'' [] [Node ''0'' [] [Node ''0'' [0] []]]]],
                4,
                [(0, 11 / subnormal_scale, [0]), (1, 6 / subnormal_scale, [0]),
                 (2, 3 / subnormal_scale, [0]), (3, 2 / subnormal_scale, [0])],
                [[0]]))"
proof -
  note call = points_at_def run_dbscan_on_node_def submatrix_def coincident_cluster_def
    subnormal_scale_not_le py_halve_underflow local_idx_def str_0
  show ?thesis
    apply (simp add: fit_def underflow_state_def call)
    apply (subst fit_loop.simps)
    apply (simp add: call)
    apply (subst fit_loop.simps)
    apply (simp add: call)
    apply (subst fit_loop.simps)
    apply (simp add: call)
    apply (subst fit_loop.simps)
    apply (simp add: observe_def remove_child_cluster_points_from_parents_def extraction_def
        extract_nodes_def remove_from_parents_def anchestors_def py_difference_def
        points_at_def Let_def)
    done
qed

subsection \<open>Paths in the tree\<close>

lemma node_at_append:
  "node_at t (p @ q) = (case node_at t p of None \<Rightarrow> None | Some nd \<Rightarrow> node_at nd q)"
proof (induction p arbitrary: t)
  case Nil
  show ?case by simp
next
  case (Cons i p)
  show ?case by (cases t) (simp add: Cons.IH)
qed

lemma node_at_prefix:
  assumes "node_at t q \<noteq> None" "prefix p q"
  shows "node_at t p \<noteq> None"
  using assms by (auto simp: prefix_def node_at_append split: option.splits)

lemma points_at_invalid: "node_at t p = None \<Longrightarrow> points_at t p = []"
  by (simp add: points_at_def)

subsection \<open>Assignment of points\<close>

lemma node_at_set_points_valid:
  "(node_at (set_points a new t) q = None) = (node_at t q = None)"
proof (induction a arbitrary: t q)
  case Nil
  show ?case by (cases t; cases q) simp_all
next
  case (Cons i a)
  show ?case
  proof (cases t)
    case (Node n pts cs)
    show ?thesis
    proof (cases q)
      case Nil
      then show ?thesis by simp
    next
      case (Cons j r)
      then show ?thesis using Node Cons.IH
        by (cases "i = j") (simp_all add: nth_list_update)
    qed
  qed
qed

lemma name_at_set_points:
  "map_option name (node_at (set_points a new t) q) = map_option name (node_at t q)"
proof (induction a arbitrary: t q)
  case Nil
  show ?case by (cases t; cases q) simp_all
next
  case (Cons i a)
  show ?case
  proof (cases t)
    case (Node n pts cs)
    show ?thesis
    proof (cases q)
      case Nil
      then show ?thesis using Node by simp
    next
      case (Cons j r)
      then show ?thesis using Node Cons.IH
        by (cases "i = j") (simp_all add: nth_list_update)
    qed
  qed
qed

lemma points_at_set_points:
  "points_at (set_points a new t) q =
     (if q = a \<and> node_at t a \<noteq> None then new else points_at t q)"
proof (induction a arbitrary: t q)
  case Nil
  show ?case by (cases t; cases q) (simp_all add: points_at_def)
next
  case (Cons i a)
  show ?case
  proof (cases t)
    case (Node n pts cs)
    show ?thesis
    proof (cases q)
      case Nil
      then show ?thesis using Node by (simp add: points_at_def)
    next
      case (Cons j r)
      have "points_at (set_points a new (cs ! i)) r =
         (if r = a \<and> node_at (cs ! i) a \<noteq> None then new else points_at (cs ! i) r)"
        by (rule Cons.IH)
      then show ?thesis using Node Cons
        by (cases "i = j") (auto simp: nth_list_update points_at_def)
    qed
  qed
qed

lemma descendants_from_cong:
  "length cs = length cs' \<Longrightarrow> (\<forall>k<length cs. descendants (cs ! k) = descendants (cs' ! k)) \<Longrightarrow>
   descendants_from i cs = descendants_from i cs'"
proof (induction cs arbitrary: cs' i)
  case Nil
  then show ?case by simp
next
  case (Cons c cs)
  then obtain c' cs'' where cs': "cs' = c' # cs''" by (cases cs') auto
  with Cons.prems have "descendants c = descendants c'"
    and "\<forall>k<length cs. descendants (cs ! k) = descendants (cs'' ! k)"
    and "length cs = length cs''"
    by auto
  with Cons.IH [of cs'' "Suc i"] cs' show ?case by simp
qed

lemma descendants_set_points: "descendants (set_points a new t) = descendants t"
proof (induction a arbitrary: t)
  case Nil
  show ?case by (cases t) simp
next
  case (Cons i a)
  show ?case
  proof (cases t)
    case (Node n pts cs)
    show ?thesis
    proof (cases "i < length cs")
      case True
      have "descendants_from 0 (cs[i := set_points a new (cs ! i)]) = descendants_from 0 cs"
        using True by (intro descendants_from_cong) (auto simp: nth_list_update Cons.IH)
      with True Node show ?thesis by simp
    next
      case False
      with Node show ?thesis by simp
    qed
  qed
qed

subsection \<open>One child removed from its ancestors\<close>

lemma py_difference_Nil [simp]: "py_difference [] ys = []"
  by (simp add: py_difference_def)

lemma set_py_difference [simp]: "set (py_difference xs ys) = set xs - set ys"
  by (auto simp: py_difference_def)

lemma distinct_py_difference [simp]: "distinct (py_difference xs ys)"
  by (simp add: py_difference_def)

lemma points_at_set_points_difference:
  "points_at (set_points a (py_difference (points_at t a) cp) t) q =
     (if q = a then py_difference (points_at t a) cp else points_at t q)"
  by (auto simp: points_at_set_points points_at_invalid)

lemma set_anchestors: "set (anchestors p) = {q. strict_prefix q p}"
proof (intro set_eqI iffI)
  fix q assume "q \<in> set (anchestors p)"
  then obtain k where "k < length p" "q = take k p" by (auto simp: anchestors_def)
  then have "prefix q p" "length q < length p" by (simp_all add: take_is_prefix)
  then show "q \<in> {q. strict_prefix q p}" by (auto simp: strict_prefix_def)
next
  fix q assume "q \<in> {q. strict_prefix q p}"
  then obtain r where p: "p = q @ r" and "r \<noteq> []" by (auto simp: strict_prefix_def prefix_def)
  then have "length q < length p" "q = take (length q) p" by simp_all
  then show "q \<in> set (anchestors p)" unfolding anchestors_def by (metis (no_types, lifting) atLeast0LessThan image_eqI lessThan_iff set_map set_upt)
qed

lemma distinct_anchestors: "distinct (anchestors p)"
  unfolding anchestors_def
  by (auto simp: distinct_map inj_on_def) (metis length_take min.absorb2 less_imp_le_nat)

lemma points_at_subtract_all:
  "distinct as \<Longrightarrow> p \<notin> set as \<Longrightarrow>
   points_at (fold (\<lambda>a t'. set_points a (py_difference (points_at t' a) (points_at t' p)) t')
                as t) q =
     (if q \<in> set as then py_difference (points_at t q) (points_at t p) else points_at t q)"
proof (induction as arbitrary: t)
  case Nil
  show ?case by simp
next
  case (Cons a as)
  let ?t1 = "set_points a (py_difference (points_at t a) (points_at t p)) t"
  have t1: "points_at ?t1 q = (if q = a then py_difference (points_at t a) (points_at t p)
      else points_at t q)" for q
    by (rule points_at_set_points_difference)
  from Cons.prems have "p \<noteq> a" "a \<notin> set as" "distinct as" "p \<notin> set as" by auto
  with Cons.IH [of ?t1] show ?case
    by (auto simp: t1)
qed

lemma points_at_remove_from_parents:
  "points_at (remove_from_parents p t) q =
     (if strict_prefix q p then py_difference (points_at t q) (points_at t p) else points_at t q)"
proof -
  have "p \<notin> set (anchestors p)" by (simp add: set_anchestors)
  then show ?thesis
    using points_at_subtract_all [OF distinct_anchestors, of p p t q]
    by (simp add: set_anchestors remove_from_parents_def)
qed

lemma node_at_remove_from_parents_valid:
  "(node_at (remove_from_parents p t) q = None) = (node_at t q = None)"
proof -
  have "(node_at (fold (\<lambda>a t'. set_points a (py_difference (points_at t' a) (points_at t' p)) t')
      as t) q = None) = (node_at t q = None)" for as
    by (induction as arbitrary: t) (simp_all add: node_at_set_points_valid)
  then show ?thesis by (simp add: remove_from_parents_def)
qed

lemma name_at_remove_from_parents:
  "map_option name (node_at (remove_from_parents p t) q) = map_option name (node_at t q)"
proof -
  have "map_option name (node_at
      (fold (\<lambda>a t'. set_points a (py_difference (points_at t' a) (points_at t' p)) t') as t) q)
      = map_option name (node_at t q)" for as
    by (induction as arbitrary: t) (simp_all add: name_at_set_points)
  then show ?thesis by (simp add: remove_from_parents_def)
qed

lemma descendants_remove_from_parents: "descendants (remove_from_parents p t) = descendants t"
proof -
  have "descendants
      (fold (\<lambda>a t'. set_points a (py_difference (points_at t' a) (points_at t' p)) t') as t)
      = descendants t" for as
    by (induction as arbitrary: t) (simp_all add: descendants_set_points)
  then show ?thesis by (simp add: remove_from_parents_def)
qed

subsection \<open>The closed form of overlap resolution\<close>

lemma set_resolved_points:
  "set (resolved_points t S a) =
     set (points_at t a) - (\<Union>d\<in>{d\<in>S. strict_prefix a d}. set (points_at t d))"
  by (auto simp: resolved_points_def)

lemma resolved_points_insert_other:
  "\<not> strict_prefix a p \<Longrightarrow> resolved_points t (insert p S) a = resolved_points t S a"
  by (auto simp: resolved_points_def intro: filter_cong)

lemma resolved_points_insert_below:
  assumes "strict_prefix a p"
  shows "py_difference (resolved_points t S a) (resolved_points t S p)
       = resolved_points t (insert p S) a"
proof (cases "\<exists>d\<in>S. strict_prefix a d")
  case True
  let ?Q = "\<lambda>x. \<forall>d\<in>S. strict_prefix a d \<longrightarrow> x \<notin> set (points_at t d)"
  have a: "resolved_points t S a = filter ?Q (remdups (points_at t a))"
    using True by (simp add: resolved_points_def)
  have "py_difference (resolved_points t S a) (resolved_points t S p)
      = filter (\<lambda>x. x \<notin> set (resolved_points t S p)) (filter ?Q (remdups (points_at t a)))"
    unfolding a py_difference_def by (simp add: distinct_remdups_id)
  also have "\<dots> = filter (\<lambda>x. ?Q x \<and> x \<notin> set (resolved_points t S p)) (remdups (points_at t a))"
    by (simp add: conj_commute)
  also have "\<dots> = filter (\<lambda>x. ?Q x \<and> x \<notin> set (points_at t p)) (remdups (points_at t a))"
  proof (rule filter_cong [OF refl])
    fix x assume "x \<in> set (remdups (points_at t a))"
    show "(?Q x \<and> x \<notin> set (resolved_points t S p)) = (?Q x \<and> x \<notin> set (points_at t p))"
    proof (cases "?Q x")
      case False
      then show ?thesis by blast
    next
      case q: True
      have "\<forall>d\<in>S. strict_prefix p d \<longrightarrow> x \<notin> set (points_at t d)"
        using q assms by (meson prefix_order.less_trans)
      then have "x \<in> set (resolved_points t S p) \<longleftrightarrow> x \<in> set (points_at t p)"
        by (auto simp: set_resolved_points)
      then show ?thesis by simp
    qed
  qed
  also have "\<dots> = resolved_points t (insert p S) a"
    using assms by (auto simp: resolved_points_def intro: filter_cong)
  finally show ?thesis .
next
  case False
  then have "\<not> (\<exists>d\<in>S. strict_prefix p d)"
    using assms by (meson prefix_order.less_trans)
  then have p: "resolved_points t S p = points_at t p"
    by (simp add: resolved_points_def)
  have a: "resolved_points t S a = points_at t a"
    using False by (simp add: resolved_points_def)
  have "resolved_points t (insert p S) a
      = filter (\<lambda>x. \<forall>d\<in>insert p S. strict_prefix a d \<longrightarrow> x \<notin> set (points_at t d))
               (remdups (points_at t a))"
    using assms by (simp add: resolved_points_def)
  also have "\<dots> = filter (\<lambda>x. x \<notin> set (points_at t p)) (remdups (points_at t a))"
    using False assms by (intro filter_cong) auto
  finally show ?thesis
    unfolding a p by (simp add: py_difference_def)
qed

lemma points_at_fold_remove:
  "points_at (fold remove_from_parents ps t) a = resolved_points t (set ps) a"
proof (induction ps arbitrary: a rule: rev_induct)
  case Nil
  show ?case by (simp add: resolved_points_def)
next
  case (snoc p ps)
  show ?case
  proof (cases "strict_prefix a p")
    case True
    then show ?thesis
      by (simp add: points_at_remove_from_parents snoc.IH resolved_points_insert_below)
  next
    case False
    then show ?thesis
      by (simp add: points_at_remove_from_parents snoc.IH resolved_points_insert_other)
  qed
qed

lemma node_at_fold_remove_valid:
  "(node_at (fold remove_from_parents ps t) q = None) = (node_at t q = None)"
  by (induction ps arbitrary: t) (simp_all add: node_at_remove_from_parents_valid)

lemma name_at_fold_remove:
  "map_option name (node_at (fold remove_from_parents ps t) q) = map_option name (node_at t q)"
  by (induction ps arbitrary: t) (simp_all add: name_at_remove_from_parents)

lemma descendants_fold_remove: "descendants (fold remove_from_parents ps t) = descendants t"
  by (induction ps arbitrary: t) (simp_all add: descendants_remove_from_parents)

lemma node_eqI:
  assumes "\<And>q. map_option name (node_at t q) = map_option name (node_at t' q)"
    and "\<And>q. points_at t q = points_at t' q"
  shows "t = t'"
  using assms
proof (induction t arbitrary: t')
  case (Node n pts cs)
  obtain n' pts' cs' where t': "t' = Node n' pts' cs'" by (cases t')
  from Node.prems(1) [of "[]"] Node.prems(2) [of "[]"] t' have top: "n = n'" "pts = pts'"
    by (simp_all add: points_at_def)
  have len: "length cs = length cs'"
  proof (rule ccontr)
    assume "length cs \<noteq> length cs'"
    then consider "length cs < length cs'" | "length cs' < length cs" by linarith
    then show False
    proof cases
      case 1
      with Node.prems(1) [of "[length cs]"] t' show False by simp
    next
      case 2
      with Node.prems(1) [of "[length cs']"] t' show False by simp
    qed
  qed
  have "cs ! i = cs' ! i" if i: "i < length cs" for i
  proof (rule Node.IH)
    show "cs ! i \<in> set cs" using i by simp
  next
    fix q
    show "map_option name (node_at (cs ! i) q) = map_option name (node_at (cs' ! i) q)"
      using Node.prems(1) [of "i # q"] t' i len by simp
  next
    fix q
    show "points_at (cs ! i) q = points_at (cs' ! i) q"
      using Node.prems(2) [of "i # q"] t' i len by (simp add: points_at_def)
  qed
  with len have "cs = cs'" by (simp add: nth_equalityI)
  with top t' show ?case by simp
qed

lemma fold_remove_set_eq:
  assumes "set ps = set qs"
  shows "fold remove_from_parents ps t = fold remove_from_parents qs t"
  by (rule node_eqI) (simp_all add: name_at_fold_remove points_at_fold_remove assms)

subsection \<open>Children added to a node\<close>

lemma node_at_add_children_below:
  "node_at (add_children p new t) (p @ r) =
     (case node_at t p of None \<Rightarrow> None
      | Some nd \<Rightarrow> node_at (Node (name nd) (clustered_points nd) (children nd @ new)) r)"
proof (induction p arbitrary: t)
  case Nil
  show ?case by (cases t) simp
next
  case (Cons i p)
  show ?case by (cases t) (simp add: Cons.IH)
qed

lemma node_at_add_children_apart:
  "\<not> prefix p q \<Longrightarrow> \<not> prefix q p \<Longrightarrow> node_at (add_children p new t) q = node_at t q"
proof (induction p arbitrary: t q)
  case Nil
  then show ?case by simp
next
  case (Cons i p)
  from Cons.prems obtain j q' where q: "q = j # q'" by (cases q) auto
  obtain n pts cs where t: "t = Node n pts cs" by (cases t)
  show ?case
  proof (cases "i = j")
    case True
    with Cons.prems q have "\<not> prefix p q'" "\<not> prefix q' p" by simp_all
    from Cons.IH [OF this] True q t show ?thesis by simp
  next
    case False
    with q t show ?thesis by simp
  qed
qed

lemma node_at_add_children_above:
  "\<not> strict_prefix p q \<Longrightarrow>
     map_option clustered_points (node_at (add_children p new t) q)
       = map_option clustered_points (node_at t q) \<and>
     map_option name (node_at (add_children p new t) q) = map_option name (node_at t q)"
proof (induction p arbitrary: t q)
  case Nil
  then have "q = []" by (simp add: strict_prefix_def)
  then show ?case by (cases t) simp
next
  case (Cons i p)
  obtain n pts cs where t: "t = Node n pts cs" by (cases t)
  show ?case
  proof (cases q)
    case Nil
    with t show ?thesis by simp
  next
    case q: (Cons j q')
    show ?thesis
    proof (cases "i = j")
      case True
      with Cons.prems q have "\<not> strict_prefix p q'" by (simp add: strict_prefix_def)
      from Cons.IH [OF this] True q t show ?thesis by simp
    next
      case False
      with q t show ?thesis by simp
    qed
  qed
qed

lemma points_at_add_children_above:
  "\<not> strict_prefix p q \<Longrightarrow> points_at (add_children p new t) q = points_at t q"
  using node_at_add_children_above [of p q new t]
  by (cases "node_at t q"; cases "node_at (add_children p new t) q") (auto simp: points_at_def)

lemma valid_add_children_above:
  "\<not> strict_prefix p q \<Longrightarrow> (node_at (add_children p new t) q = None) = (node_at t q = None)"
  using node_at_add_children_above [of p q new t]
  by (cases "node_at t q"; cases "node_at (add_children p new t) q") auto

lemma strict_prefixE':
  assumes "strict_prefix p q"
  obtains i r where "q = p @ i # r"
proof -
  from assms obtain zs where "q = p @ zs" "zs \<noteq> []"
    by (auto simp: strict_prefix_def prefix_def)
  then show ?thesis using that by (cases zs) auto
qed

text \<open>New leaves under a node: the nodes of the tree afterwards are the old ones and the
  new children.\<close>

lemma node_at_add_leaves:
  assumes leaves: "\<forall>c\<in>set new. children c = []"
    and valid: "node_at (add_children p new t) q \<noteq> None"
  shows "node_at t q \<noteq> None \<or> (\<exists>i. q = p @ [i])"
proof (cases "strict_prefix p q")
  case False
  with valid show ?thesis by (simp add: valid_add_children_above)
next
  case True
  then obtain i r where q: "q = p @ i # r"
    by (rule strict_prefixE')
  from valid q obtain nd where nd: "node_at t p = Some nd"
    by (auto simp: node_at_add_children_below split: option.splits)
  from valid q nd have i: "i < length (children nd @ new)"
    and r: "node_at ((children nd @ new) ! i) r \<noteq> None"
    by (auto simp: node_at_add_children_below split: if_splits)
  show ?thesis
  proof (cases "i < length (children nd)")
    case True
    with r have "node_at nd (i # r) \<noteq> None" by (cases nd) (simp add: nth_append)
    with nd q show ?thesis by (simp add: node_at_append)
  next
    case False
    with i have "(children nd @ new) ! i \<in> set new" by (auto simp: nth_append)
    with leaves have "children ((children nd @ new) ! i) = []" by blast
    with r have "r = []" by (cases "(children nd @ new) ! i"; cases r) auto
    with q show ?thesis by simp
  qed
qed

lemma node_at_add_children_mono:
  assumes "node_at t q \<noteq> None"
  shows "node_at (add_children p new t) q \<noteq> None"
proof (cases "strict_prefix p q")
  case False
  with assms show ?thesis by (simp add: valid_add_children_above)
next
  case True
  then obtain i r where q: "q = p @ i # r"
    by (rule strict_prefixE')
  from assms q obtain nd where nd: "node_at t p = Some nd" and r: "node_at nd (i # r) \<noteq> None"
    by (auto simp: node_at_append split: option.splits)
  from r have "i < length (children nd)" "node_at (children nd ! i) r \<noteq> None"
    by (cases nd; auto split: if_splits)+
  then show ?thesis using q nd by (simp add: node_at_add_children_below nth_append)
qed

subsection \<open>One level of tree growth\<close>

lemma py_max_Inr:
  assumes "py_max labels = Inr m"
  shows "labels \<noteq> [] \<and> m = Max (set labels)"
proof (cases labels)
  case Nil
  with assms show ?thesis by simp
next
  case (Cons x xs)
  with assms have "m = fold max xs x" by simp
  then show ?thesis using Cons Max.set_eq_fold [of x xs] by simp
qed

lemma cluster_nodes_Inr:
  "cluster_nodes points_idx labels is = Inr new \<Longrightarrow>
     new = map (\<lambda>i. Node (str i) (map ((!) points_idx) (local_idx labels i)) []) is \<and>
     (\<forall>i\<in>set is. \<forall>k\<in>set (local_idx labels i). k < length points_idx)"
proof (induction "is" arbitrary: new)
  case Nil
  then show ?case by simp
next
  case (Cons i rest)
  from Cons.prems obtain ns where
    ok: "\<forall>k\<in>set (local_idx labels i). k < length points_idx" and
    rest: "cluster_nodes points_idx labels rest = Inr ns" and
    new: "new = Node (str i) (map ((!) points_idx) (local_idx labels i)) [] # ns"
    by (auto split: if_splits sum.splits simp: not_le)
  from Cons.IH [OF rest] ok new show ?case by simp
qed

lemma set_local_idx: "set (local_idx labels i) = {k. k < length labels \<and> labels ! k = int i}"
  by (auto simp: local_idx_def)

lemma distinct_local_idx: "distinct (local_idx labels i)"
  by (simp add: local_idx_def)

lemma local_idx_nonempty: "int i \<in> set labels \<Longrightarrow> local_idx labels i \<noteq> []"
proof -
  assume "int i \<in> set labels"
  then obtain k where "k < length labels" "labels ! k = int i" by (auto simp: in_set_conv_nth)
  then have "k \<in> set (local_idx labels i)" by (simp add: set_local_idx)
  then show ?thesis by auto
qed

lemma card_nonneg_labels:
  assumes "labels \<noteq> []" "\<forall>i<nat (Max (set labels) + 1). int i \<in> set labels"
  shows "card {l \<in> set labels. 0 \<le> l} = nat (Max (set labels) + 1)"
proof -
  have "{l \<in> set labels. 0 \<le> l} = int ` {0..<nat (Max (set labels) + 1)}"
  proof (intro set_eqI iffI)
    fix l assume "l \<in> {l \<in> set labels. 0 \<le> l}"
    then have "l \<in> set labels" "0 \<le> l" by auto
    then have "l \<le> Max (set labels)" by simp
    with \<open>0 \<le> l\<close> have "nat l < nat (Max (set labels) + 1)" "l = int (nat l)" by auto
    then show "l \<in> int ` {0..<nat (Max (set labels) + 1)}" by (metis atLeast0LessThan image_eqI lessThan_iff)
  next
    fix l assume "l \<in> int ` {0..<nat (Max (set labels) + 1)}"
    then show "l \<in> {l \<in> set labels. 0 \<le> l}" using assms(2) by auto
  qed
  then show ?thesis by (simp add: card_image)
qed

lemma submatrix_length: "submatrix dm idx = Inr sub \<Longrightarrow> length sub = length idx"
  by (auto simp: submatrix_def Let_def split: if_splits)

lemma numbered_from_zero_contiguous:
  assumes "numbered_from_zero labels" "labels \<noteq> []"
  shows "\<forall>i<nat (Max (set labels) + 1). int i \<in> set labels"
proof (intro allI impI)
  fix i assume "i < nat (Max (set labels) + 1)"
  then have "int i \<in> {0..Max (set labels)}" by auto
  moreover from assms(2) have "Max (set labels) \<in> set labels" by simp
  ultimately show "int i \<in> set labels"
    using assms(1) unfolding numbered_from_zero_def by blast
qed

lemma numbered_from_zero_replicate: "l \<le> 0 \<Longrightarrow> numbered_from_zero (replicate n l)"
  unfolding numbered_from_zero_def by auto

lemma example_cluster_contract: "primitive_contract example_cluster"
proof -
  have "numbered_from_zero [0, 0, 1, 1, - 1]"
    unfolding numbered_from_zero_def
  proof (intro ballI)
    fix l i :: int
    assume "l \<in> set [0, 0, 1, 1, - 1]" "i \<in> {0..l}"
    then have "i = 0 \<or> i = 1" by auto
    then show "i \<in> set [0, 0, 1, 1, - 1]" by auto
  qed
  then show ?thesis
    unfolding primitive_contract_def example_cluster_def
    by (auto simp: numbered_from_zero_replicate)
qed

subsection \<open>What a run changes in the object\<close>

lemma cluster_nodes_leaves:
  assumes "cluster_nodes points_idx labels is = Inr new"
  shows "\<forall>c\<in>set new. children c = []"
  using cluster_nodes_Inr [OF assms] by auto

lemma descendants_add_children_mono:
  "set (descendants t) \<subseteq> set (descendants (add_children p new t))"
proof
  fix q assume "q \<in> set (descendants t)"
  then have "q \<noteq> []" "node_at t q \<noteq> None" by (simp_all add: set_descendants)
  then show "q \<in> set (descendants (add_children p new t))"
    using node_at_add_children_mono [of t q p new] by (simp add: set_descendants)
qed

text \<open>The tree, the counter and the history after one call.\<close>

lemma run_dbscan_on_node_effect:
  assumes "run_dbscan_on_node cluster st points_idx new_eps parent_node = Inr st'"
  shows "dbscan_performed st' = dbscan_performed st + 1"
    and "invocations st' = invocations st @ [(length parent_node, new_eps, points_idx)]"
    and "set (descendants (progressive_clustering st))
           \<subseteq> set (descendants (progressive_clustering st'))"
    and "node_at (progressive_clustering st') q \<noteq> None \<Longrightarrow>
           node_at (progressive_clustering st) q \<noteq> None \<or> length q = length parent_node + 1"
proof -
  from assms obtain sub labels m new where
    new: "cluster_nodes points_idx labels [0..<nat (m + 1)] = Inr new" and
    st': "st' = st\<lparr> dbscan_performed := dbscan_performed st + 1,
              invocations := invocations st @ [(length parent_node, new_eps, points_idx)],
              progressive_clustering := add_children parent_node new (progressive_clustering st) \<rparr>"
    by (rule run_dbscan_on_node_Inr)
  show "dbscan_performed st' = dbscan_performed st + 1"
    and "invocations st' = invocations st @ [(length parent_node, new_eps, points_idx)]"
    by (simp_all add: st')
  show "set (descendants (progressive_clustering st))
           \<subseteq> set (descendants (progressive_clustering st'))"
    by (simp add: st' descendants_add_children_mono)
  show "node_at (progressive_clustering st) q \<noteq> None \<or> length q = length parent_node + 1"
    if "node_at (progressive_clustering st') q \<noteq> None"
    using node_at_add_leaves [OF cluster_nodes_leaves [OF new], of parent_node "progressive_clustering st" q]
      that by (auto simp: st')
qed

lemma run_level_effect:
  "run_level cluster e ps st = Inr st' \<Longrightarrow>
     (\<exists>es. invocations st' = invocations st @ es \<and> length es = length ps \<and>
           (\<forall>x\<in>set es. fst (snd x) = e \<and> fst x \<in> length ` set ps)) \<and>
     dbscan_performed st' = dbscan_performed st + length ps \<and>
     set (descendants (progressive_clustering st)) \<subseteq> set (descendants (progressive_clustering st')) \<and>
     (\<forall>q. node_at (progressive_clustering st') q \<noteq> None \<longrightarrow>
          node_at (progressive_clustering st) q \<noteq> None \<or> length q \<in> (\<lambda>p. length p + 1) ` set ps)"
proof (induction ps arbitrary: st)
  case Nil
  then show ?case by simp
next
  case (Cons p ps)
  from Cons.prems obtain s1 where
    1: "run_dbscan_on_node cluster st (points_at (progressive_clustering st) p) e p = Inr s1"
    and 2: "run_level cluster e ps s1 = Inr st'"
    by (auto split: sum.splits)
  note a = run_dbscan_on_node_effect [OF 1]
  from Cons.IH [OF 2] obtain es where
    es: "invocations st' = invocations s1 @ es" "length es = length ps"
      "\<forall>x\<in>set es. fst (snd x) = e \<and> fst x \<in> length ` set ps"
    and n: "dbscan_performed st' = dbscan_performed s1 + length ps"
    and d: "set (descendants (progressive_clustering s1)) \<subseteq> set (descendants (progressive_clustering st'))"
    and v: "\<forall>q. node_at (progressive_clustering st') q \<noteq> None \<longrightarrow>
          node_at (progressive_clustering s1) q \<noteq> None \<or> length q \<in> (\<lambda>p. length p + 1) ` set ps"
    by blast
  let ?es = "(length p, e, points_at (progressive_clustering st) p) # es"
  have "invocations st' = invocations st @ ?es \<and> length ?es = length (p # ps) \<and>
           (\<forall>x\<in>set ?es. fst (snd x) = e \<and> fst x \<in> length ` set (p # ps))"
    using es a(2) by auto
  then have "\<exists>es. invocations st' = invocations st @ es \<and> length es = length (p # ps) \<and>
           (\<forall>x\<in>set es. fst (snd x) = e \<and> fst x \<in> length ` set (p # ps))"
    by blast
  moreover have "dbscan_performed st' = dbscan_performed st + length (p # ps)"
    using n a(1) by simp
  moreover have "set (descendants (progressive_clustering st))
      \<subseteq> set (descendants (progressive_clustering st'))"
    using d a(3) by blast
  moreover have "\<forall>q. node_at (progressive_clustering st') q \<noteq> None \<longrightarrow>
          node_at (progressive_clustering st) q \<noteq> None
          \<or> length q \<in> (\<lambda>p. length p + 1) ` set (p # ps)"
  proof (intro allI impI)
    fix q assume "node_at (progressive_clustering st') q \<noteq> None"
    with v have "node_at (progressive_clustering s1) q \<noteq> None
        \<or> length q \<in> (\<lambda>p. length p + 1) ` set ps" by blast
    then show "node_at (progressive_clustering st) q \<noteq> None
          \<or> length q \<in> (\<lambda>p. length p + 1) ` set (p # ps)"
      using a(4) [of q] by auto
  qed
  ultimately show ?case by blast
qed

lemma fit_loop_effect:
  assumes run: "fit_loop cluster md d0 e0 st = Some (Inr st')"
  shows "\<exists>es. invocations st' = invocations st @ es \<and>
      dbscan_performed st' = dbscan_performed st + length es \<and>
      (\<forall>x\<in>set es. d0 \<le> fst x \<and> \<not> depth_reached (fst x) md \<and>
          fst (snd x) = (update_epsilon_func st ^^ (fst x - d0 + 1)) e0) \<and>
      set (descendants (progressive_clustering st)) \<subseteq> set (descendants (progressive_clustering st')) \<and>
      (\<forall>q. node_at (progressive_clustering st') q \<noteq> None \<longrightarrow>
          node_at (progressive_clustering st) q \<noteq> None \<or>
          (\<exists>k. length q = k + 1 \<and> d0 \<le> k \<and> \<not> depth_reached k md))"
proof -
  let ?upd = "update_epsilon_func st"
  let ?I = "\<lambda>(d::nat) (e::real) (s::variousDBSCAN). d0 \<le> d \<and> e = (?upd ^^ (d - d0)) e0 \<and> update_epsilon_func s = ?upd \<and>
     (\<exists>es. invocations s = invocations st @ es \<and>
        dbscan_performed s = dbscan_performed st + length es \<and>
        (\<forall>x\<in>set es. d0 \<le> fst x \<and> \<not> depth_reached (fst x) md \<and>
          fst (snd x) = (?upd ^^ (fst x - d0 + 1)) e0)) \<and>
     set (descendants (progressive_clustering st)) \<subseteq> set (descendants (progressive_clustering s)) \<and>
     (\<forall>q. node_at (progressive_clustering s) q \<noteq> None \<longrightarrow>
          node_at (progressive_clustering st) q \<noteq> None \<or>
          (\<exists>k. length q = k + 1 \<and> d0 \<le> k \<and> \<not> depth_reached k md))"
  have "\<exists>d e. ?I d e st' \<and> (depth_reached d md \<or>
      filter (\<lambda>nd. length nd = d) (descendants (progressive_clustering st')) = [])"
  proof (rule fit_loop_invariant [OF run, where I = ?I])
    show "?I d0 e0 st" by simp
  next
    fix d :: nat and e :: real and s s' :: variousDBSCAN
    let ?next = "filter (\<lambda>nd. length nd = d) (descendants (progressive_clustering s))"
    assume inv: "?I d e s" and nd: "\<not> depth_reached d md" and ne: "?next \<noteq> []"
      and lev: "run_level cluster (update_epsilon_func s e) ?next s = Inr s'"
    from inv have d: "d0 \<le> d" and e: "e = (?upd ^^ (d - d0)) e0"
      and u: "update_epsilon_func s = ?upd" by simp_all
    from inv obtain es where es: "invocations s = invocations st @ es"
      "dbscan_performed s = dbscan_performed st + length es"
      "\<forall>x\<in>set es. d0 \<le> fst x \<and> \<not> depth_reached (fst x) md \<and>
          fst (snd x) = (?upd ^^ (fst x - d0 + 1)) e0" by blast
    from inv have sub: "set (descendants (progressive_clustering st))
        \<subseteq> set (descendants (progressive_clustering s))"
      and val: "\<forall>q. node_at (progressive_clustering s) q \<noteq> None \<longrightarrow>
          node_at (progressive_clustering st) q \<noteq> None \<or>
          (\<exists>k. length q = k + 1 \<and> d0 \<le> k \<and> \<not> depth_reached k md)" by simp_all
    from run_level_effect [OF lev] obtain es' where es':
      "invocations s' = invocations s @ es'" "length es' = length ?next"
      "\<forall>x\<in>set es'. fst (snd x) = update_epsilon_func s e \<and> fst x \<in> length ` set ?next"
      and n': "dbscan_performed s' = dbscan_performed s + length ?next"
      and sub': "set (descendants (progressive_clustering s))
          \<subseteq> set (descendants (progressive_clustering s'))"
      and val': "\<forall>q. node_at (progressive_clustering s') q \<noteq> None \<longrightarrow>
          node_at (progressive_clustering s) q \<noteq> None
          \<or> length q \<in> (\<lambda>p. length p + 1) ` set ?next"
      by blast
    have ue: "update_epsilon_func s e = (?upd ^^ (d - d0 + 1)) e0"
      using u e by simp
    have new: "\<forall>x\<in>set es'. d0 \<le> fst x \<and> \<not> depth_reached (fst x) md \<and>
          fst (snd x) = (?upd ^^ (fst x - d0 + 1)) e0"
    proof
      fix x assume "x \<in> set es'"
      with es'(3) have "fst (snd x) = update_epsilon_func s e" "fst x = d" by auto
      with ue d nd show "d0 \<le> fst x \<and> \<not> depth_reached (fst x) md \<and>
          fst (snd x) = (?upd ^^ (fst x - d0 + 1)) e0" by simp
    qed
    have 1: "d0 \<le> d + 1" using d by simp
    have 2: "update_epsilon_func s e = (?upd ^^ (d + 1 - d0)) e0"
      using ue d by (simp add: Suc_diff_le)
    have 3: "update_epsilon_func s' = ?upd"
      using run_level_params [OF lev] u by simp
    have 4: "\<exists>es. invocations s' = invocations st @ es \<and>
        dbscan_performed s' = dbscan_performed st + length es \<and>
        (\<forall>x\<in>set es. d0 \<le> fst x \<and> \<not> depth_reached (fst x) md \<and>
          fst (snd x) = (?upd ^^ (fst x - d0 + 1)) e0)"
    proof (intro exI conjI)
      show "invocations s' = invocations st @ (es @ es')"
        using es(1) es'(1) by simp
      show "dbscan_performed s' = dbscan_performed st + length (es @ es')"
        using es(2) es'(2) n' by simp
      show "\<forall>x\<in>set (es @ es'). d0 \<le> fst x \<and> \<not> depth_reached (fst x) md \<and>
          fst (snd x) = (?upd ^^ (fst x - d0 + 1)) e0"
      proof
        fix x assume "x \<in> set (es @ es')"
        then consider "x \<in> set es" | "x \<in> set es'" by auto
        then show "d0 \<le> fst x \<and> \<not> depth_reached (fst x) md \<and>
          fst (snd x) = (?upd ^^ (fst x - d0 + 1)) e0"
          using es(3) new by cases blast+
      qed
    qed
    have 5: "set (descendants (progressive_clustering st))
        \<subseteq> set (descendants (progressive_clustering s'))"
      using sub sub' by blast
    have 6: "\<forall>q. node_at (progressive_clustering s') q \<noteq> None \<longrightarrow>
          node_at (progressive_clustering st) q \<noteq> None \<or>
          (\<exists>k. length q = k + 1 \<and> d0 \<le> k \<and> \<not> depth_reached k md)"
    proof (intro allI impI)
      fix q assume "node_at (progressive_clustering s') q \<noteq> None"
      with val' consider "node_at (progressive_clustering s) q \<noteq> None"
        | "length q \<in> (\<lambda>p. length p + 1) ` set ?next" by blast
      then show "node_at (progressive_clustering st) q \<noteq> None \<or>
          (\<exists>k. length q = k + 1 \<and> d0 \<le> k \<and> \<not> depth_reached k md)"
      proof cases
        case 1
        with val show ?thesis by blast
      next
        case 2
        then have "length q = d + 1" by auto
        with d nd show ?thesis by blast
      qed
    qed
    show "?I (d + 1) (update_epsilon_func s e) s'"
      using 1 2 3 4 5 6 by blast
  qed
  then show ?thesis by blast
qed

lemma fit_effect:
  assumes "fit cluster st md = Some (Inr (st', cl))"
  obtains st1 es where
    "run_dbscan_on_node cluster st [0..<n_points st] (epsilon st) [] = Inr st1"
    "invocations st' = invocations st @ (0, epsilon st, [0..<n_points st]) # es"
    "dbscan_performed st' = dbscan_performed st + 1 + length es"
    "\<forall>x\<in>set es. 1 \<le> fst x \<and> \<not> depth_reached (fst x) md \<and>
        fst (snd x) = (update_epsilon_func st ^^ fst x) (epsilon st)"
    "set (descendants (progressive_clustering st)) \<subseteq> set (descendants (progressive_clustering st1))"
    "set (descendants (progressive_clustering st1)) \<subseteq> set (descendants (progressive_clustering st'))"
    "\<forall>q\<in>set (descendants (progressive_clustering st')).
        q \<in> set (descendants (progressive_clustering st)) \<or> length q = 1 \<or>
        (\<exists>k. length q = k + 1 \<and> 1 \<le> k \<and> \<not> depth_reached k md)"
proof -
  from assms obtain st1 st2 where
    1: "run_dbscan_on_node cluster st [0..<n_points st] (epsilon st) [] = Inr st1" and
    2: "fit_loop cluster md 1 (epsilon st) st1 = Some (Inr st2)" and
    3: "(st', cl) = extraction (remove_child_cluster_points_from_parents st2)"
    by (rule fit_Inr)
  note a = run_dbscan_on_node_effect [OF 1]
  have u: "update_epsilon_func st1 = update_epsilon_func st"
    using run_dbscan_on_node_params [OF 1] by simp
  from fit_loop_effect [OF 2] obtain es where
    es: "invocations st2 = invocations st1 @ es"
      "dbscan_performed st2 = dbscan_performed st1 + length es"
      "\<forall>x\<in>set es. 1 \<le> fst x \<and> \<not> depth_reached (fst x) md \<and>
          fst (snd x) = (update_epsilon_func st1 ^^ (fst x - 1 + 1)) (epsilon st)"
    and sub: "set (descendants (progressive_clustering st1))
        \<subseteq> set (descendants (progressive_clustering st2))"
    and val: "\<forall>q. node_at (progressive_clustering st2) q \<noteq> None \<longrightarrow>
          node_at (progressive_clustering st1) q \<noteq> None \<or>
          (\<exists>k. length q = k + 1 \<and> 1 \<le> k \<and> \<not> depth_reached k md)"
    by blast
  from 3 have inv: "invocations st' = invocations st2"
    and cnt: "dbscan_performed st' = dbscan_performed st2"
    and tree: "descendants (progressive_clustering st') = descendants (progressive_clustering st2)"
    by (simp_all add: extraction_def Let_def remove_child_cluster_points_from_parents_def
        descendants_fold_remove)
  have i: "invocations st' = invocations st @ (0, epsilon st, [0..<n_points st]) # es"
    using inv es(1) a(2) by simp
  have ii: "dbscan_performed st' = dbscan_performed st + 1 + length es"
    using cnt es(2) a(1) by simp
  have iii: "\<forall>x\<in>set es. 1 \<le> fst x \<and> \<not> depth_reached (fst x) md \<and>
        fst (snd x) = (update_epsilon_func st ^^ fst x) (epsilon st)"
  proof
    fix x assume x: "x \<in> set es"
    with es(3) have 1: "1 \<le> fst x" and 2: "\<not> depth_reached (fst x) md"
      and 3: "fst (snd x) = (update_epsilon_func st1 ^^ (fst x - 1 + 1)) (epsilon st)"
      by blast+
    from 1 have "fst x - 1 + 1 = fst x" by simp
    with 3 u have "fst (snd x) = (update_epsilon_func st ^^ fst x) (epsilon st)"
      by (simp only:)
    with 1 2 show "1 \<le> fst x \<and> \<not> depth_reached (fst x) md \<and>
        fst (snd x) = (update_epsilon_func st ^^ fst x) (epsilon st)" by blast
  qed
  have iv: "set (descendants (progressive_clustering st1))
      \<subseteq> set (descendants (progressive_clustering st'))"
    using sub tree by simp
  have v: "\<forall>q\<in>set (descendants (progressive_clustering st')).
        q \<in> set (descendants (progressive_clustering st)) \<or> length q = 1 \<or>
        (\<exists>k. length q = k + 1 \<and> 1 \<le> k \<and> \<not> depth_reached k md)"
  proof
    fix q assume "q \<in> set (descendants (progressive_clustering st'))"
    then have q: "q \<noteq> []" "node_at (progressive_clustering st2) q \<noteq> None"
      by (simp_all add: tree set_descendants)
    with val consider "node_at (progressive_clustering st1) q \<noteq> None"
      | "\<exists>k. length q = k + 1 \<and> 1 \<le> k \<and> \<not> depth_reached k md" by blast
    then show "q \<in> set (descendants (progressive_clustering st)) \<or> length q = 1 \<or>
        (\<exists>k. length q = k + 1 \<and> 1 \<le> k \<and> \<not> depth_reached k md)"
    proof cases
      case 1
      from a(4) [OF 1] q(1) show ?thesis by (auto simp: set_descendants)
    next
      case 2
      then show ?thesis by blast
    qed
  qed
  from that [OF 1 i ii iii a(3) iv v] show ?thesis .
qed

subsection \<open>The driver\<close>

lemma init_Inr:
  assumes "init dm original_epsilon mp update_epsilon = Inr st"
  shows "epsilon st = original_epsilon" "invocations st = []" "dbscan_performed st = 0"
    "progressive_clustering st = Node '''' [] []"
    "update_epsilon_func st = (case update_epsilon of None \<Rightarrow> py_halve | Some f \<Rightarrow> f)"
    "n_points st = length dm"
  using assms by (auto simp: init_def split: if_splits)

lemma fit_loop_terminates: "\<exists>r. fit_loop cluster (MaxDepth k) d e st = Some r"
proof (induction "nat (k - int d)" arbitrary: d e st)
  case 0
  then have "depth_reached d (MaxDepth k)" by simp
  then show ?case by (subst fit_loop.simps) simp
next
  case (Suc n)
  let ?next = "filter (\<lambda>nd. length nd = d) (descendants (progressive_clustering st))"
  show ?case
  proof (cases "depth_reached d (MaxDepth k) \<or> ?next = []")
    case True
    then show ?thesis by (subst fit_loop.simps) auto
  next
    case False
    show ?thesis
    proof (cases "run_level cluster (update_epsilon_func st e) ?next st")
      case (Inl err)
      with False show ?thesis by (subst fit_loop.simps) (simp add: Let_def)
    next
      case (Inr s1)
      from Suc.hyps(2) have "n = nat (k - int (d + 1))" by simp
      from Suc.hyps(1) [OF this] obtain r where
        "fit_loop cluster (MaxDepth k) (d + 1) (update_epsilon_func st e) s1 = Some r" by blast
      with False Inr show ?thesis by (subst fit_loop.simps) (simp add: Let_def)
    qed
  qed
qed

lemma fit_terminates: "\<exists>r. fit cluster st (MaxDepth k) = Some r"
proof (cases "run_dbscan_on_node cluster st [0..<n_points st] (epsilon st) []")
  case (Inl e)
  then show ?thesis by (simp add: fit_def)
next
  case (Inr st1)
  from fit_loop_terminates obtain r where
    r: "fit_loop cluster (MaxDepth k) 1 (epsilon st) st1 = Some r" by blast
  show ?thesis using Inr r by (cases r) (simp_all add: fit_def)
qed

lemma fit_shallow:
  assumes "k \<le> 1"
  shows "fit cluster st (MaxDepth k) =
     (case run_dbscan_on_node cluster st [0..<n_points st] (epsilon st) [] of
        Inl e \<Rightarrow> Some (Inl e)
      | Inr st1 \<Rightarrow> Some (Inr (extraction (remove_child_cluster_points_from_parents st1))))"
proof -
  have "fit_loop cluster (MaxDepth k) 1 e s = Some (Inr s)" for e s
    using assms by (subst fit_loop.simps) simp
  then show ?thesis by (simp add: fit_def split: sum.splits)
qed

text \<open>A bare root whose children are leaves: overlap resolution changes nothing, and the
  extraction lists the children in their order.\<close>

lemma descendants_from_leaves:
  "\<forall>c\<in>set cs. children c = [] \<Longrightarrow> descendants_from i cs = map (\<lambda>j. [j]) [i..<i + length cs]"
proof (induction cs arbitrary: i)
  case Nil
  show ?case by simp
next
  case (Cons c cs)
  from Cons.prems obtain n pts where c: "c = Node n pts []" by (cases c) auto
  from Cons.prems have "descendants_from (Suc i) cs = map (\<lambda>j. [j]) [Suc i..<Suc i + length cs]"
    by (intro Cons.IH) simp
  moreover have "[i..<i + length (c # cs)] = i # [Suc i..<Suc i + length cs]"
    by (simp add: upt_conv_Cons del: upt_Suc)
  ultimately show ?case unfolding c by (simp del: upt_Suc)
qed

lemma remove_from_parents_child_of_bare_root:
  "remove_from_parents [i] (Node n [] cs) = Node n [] cs"
  by (simp add: remove_from_parents_def anchestors_def py_difference_def points_at_def)

lemma fold_remove_children_of_bare_root:
  "\<forall>p\<in>set ps. length p = 1 \<Longrightarrow> fold remove_from_parents ps (Node n [] cs) = Node n [] cs"
proof (induction ps)
  case Nil
  show ?case by simp
next
  case (Cons p ps)
  from Cons.prems obtain i where "p = [i]" by (cases p) auto
  with Cons show ?case by (simp add: remove_from_parents_child_of_bare_root)
qed

lemma extraction_leaves:
  assumes t: "progressive_clustering s = Node n [] new"
    and leaves: "\<forall>c\<in>set new. children c = []"
  shows "snd (extraction (remove_child_cluster_points_from_parents s))
     = filter (\<lambda>pts. min_points s \<le> int (length pts)) (map clustered_points new)"
proof -
  let ?t = "Node n [] new"
  have desc: "descendants ?t = map (\<lambda>j. [j]) [0..<length new]"
    using descendants_from_leaves [OF leaves, of 0] by simp
  have "fold remove_from_parents (sort_key (\<lambda>x. - int (length x)) (descendants ?t)) ?t = ?t"
    unfolding desc by (rule fold_remove_children_of_bare_root) auto
  then have rem: "remove_child_cluster_points_from_parents s = s"
    unfolding remove_child_cluster_points_from_parents_def Let_def t
    using t by simp
  have sorted: "sort_key (\<lambda>x. - (int (length x) + 1)) (map (\<lambda>j. [j]) [0..<length new])
      = map (\<lambda>j. [j]) [0..<length new]"
    by (rule sort_key_id_if_sorted) (simp add: o_def map_replicate_const del: upt.simps)
  have pts: "points_at ?t [j] = clustered_points (new ! j)" if "j < length new" for j
    using that by (simp add: points_at_def)
  have new: "map clustered_points new = map (\<lambda>j. clustered_points (new ! j)) [0..<length new]"
    by (rule nth_equalityI) (simp_all del: upt.simps)
  have "snd (extraction s)
      = map (points_at ?t) (filter (\<lambda>nd. min_points s \<le> int (length (points_at ?t nd)))
            (map (\<lambda>j. [j]) [0..<length new]))"
    unfolding extraction_def extract_nodes_def Let_def t desc sorted by simp
  also have "\<dots> = map (\<lambda>j. points_at ?t [j])
                    (filter (\<lambda>j. min_points s \<le> int (length (points_at ?t [j]))) [0..<length new])"
    by (simp add: filter_map o_def)
  also have "\<dots> = map (\<lambda>j. clustered_points (new ! j))
                    (filter (\<lambda>j. min_points s \<le> int (length (clustered_points (new ! j))))
                       [0..<length new])"
    by (intro map_cong filter_cong arg_cong2 [where f = map] refl)
       (auto simp: pts simp del: upt.simps)
  also have "\<dots> = filter (\<lambda>pts. min_points s \<le> int (length pts)) (map clustered_points new)"
    unfolding new by (simp add: filter_map o_def)
  finally show ?thesis unfolding rem .
qed

subsection \<open>The nesting built by the driver\<close>

lemma points_at_new_leaf:
  assumes "node_at t p = Some nd" "children nd = []"
  shows "points_at (add_children p new t) (p @ [i]) =
     (if i < length new then clustered_points (new ! i) else [])"
  using assms by (simp add: points_at_def node_at_add_children_below)

lemma points_at_old_node:
  assumes "node_at t p = Some nd" "children nd = []" "\<forall>c\<in>set new. children c = []"
    and "\<forall>i. q \<noteq> p @ [i]"
  shows "points_at (add_children p new t) q = points_at t q"
proof (cases "strict_prefix p q")
  case False
  then show ?thesis by (rule points_at_add_children_above)
next
  case True
  then obtain i r where q: "q = p @ i # r" by (rule strict_prefixE')
  with assms(4) have r: "r \<noteq> []" by auto
  have old: "node_at t q = None"
    using assms(1,2) q by (cases nd) (simp add: node_at_append)
  have "node_at (add_children p new t) q = None"
  proof (cases "i < length new")
    case True
    then have "new ! i \<in> set new" by simp
    with assms(3) have "children (new ! i) = []" by blast
    with r have "node_at (new ! i) r = None" by (cases "new ! i"; cases r) auto
    with True assms(1,2) q show ?thesis by (simp add: node_at_add_children_below)
  next
    case False
    with assms(1,2) q show ?thesis by (simp add: node_at_add_children_below)
  qed
  with old show ?thesis by (simp add: points_at_def)
qed

lemma points_at_below_leaf:
  assumes "node_at t p = Some nd" "children nd = []"
  shows "points_at t (p @ i # r) = []"
  using assms by (cases nd) (simp add: points_at_def node_at_append)

lemma nested_disjoint_add_children:
  assumes inv: "nested_disjoint t"
    and leaf: "node_at t p = Some nd" "children nd = []"
    and leaves: "\<forall>c\<in>set new. children c = []"
    and disj: "\<forall>i<length new. \<forall>j<length new. i \<noteq> j \<longrightarrow>
        set (clustered_points (new ! i)) \<inter> set (clustered_points (new ! j)) = {}"
    and dist: "\<forall>c\<in>set new. distinct (clustered_points c)"
    and sub: "p \<noteq> [] \<longrightarrow> (\<forall>c\<in>set new. set (clustered_points c) \<subseteq> set (points_at t p))"
  shows "nested_disjoint (add_children p new t)"
proof -
  let ?t = "add_children p new t"
  note new = points_at_new_leaf [OF leaf, of new]
  note old = points_at_old_node [OF leaf leaves]
  from inv have I1: "i \<noteq> j \<Longrightarrow> set (points_at t (c @ [i])) \<inter> set (points_at t (c @ [j])) = {}"
    and I2: "q \<noteq> [] \<Longrightarrow> set (points_at t (q @ [i])) \<subseteq> set (points_at t q)"
    and I3: "distinct (points_at t q)" for c i j q
    by (simp_all add: nested_disjoint_def)
  have p_same: "points_at ?t p = points_at t p"
    by (rule old) simp
  have 1: "set (points_at ?t (c @ [i])) \<inter> set (points_at ?t (c @ [j])) = {}" if "i \<noteq> j" for c i j
  proof (cases "c = p")
    case True
    then show ?thesis using that disj by (auto simp: new)
  next
    case False
    then have "points_at ?t (c @ [i]) = points_at t (c @ [i])"
      "points_at ?t (c @ [j]) = points_at t (c @ [j])"
      by (auto intro!: old)
    then show ?thesis using I1 [OF that] by simp
  qed
  have 2: "set (points_at ?t (q @ [i])) \<subseteq> set (points_at ?t q)" if "q \<noteq> []" for q i
  proof (cases "q = p")
    case True
    have "set (points_at ?t (p @ [i])) \<subseteq> set (points_at t p)"
      using sub that True by (auto simp: new)
    then show ?thesis using True p_same by simp
  next
    case False
    then have a: "points_at ?t (q @ [i]) = points_at t (q @ [i])"
      by (auto intro!: old)
    show ?thesis
    proof (cases "\<exists>k. q = p @ [k]")
      case True
      then obtain k where "q = p @ [k]" by blast
      then have "points_at t (q @ [i]) = []"
        using points_at_below_leaf [OF leaf, of k "[i]"] by simp
      with a show ?thesis by simp
    next
      case False
      then have "points_at ?t q = points_at t q" by (auto intro!: old)
      with a I2 [OF that] show ?thesis by simp
    qed
  qed
  have 3: "distinct (points_at ?t q)" for q
  proof (cases "\<exists>k. q = p @ [k]")
    case True
    then obtain k where "q = p @ [k]" by blast
    then show ?thesis using dist by (auto simp: new)
  next
    case False
    then have "points_at ?t q = points_at t q" by (auto intro!: old)
    with I3 show ?thesis by simp
  qed
  from 1 2 3 show ?thesis unfolding nested_disjoint_def by blast
qed

lemma cluster_nodes_disjoint:
  assumes new: "cluster_nodes points_idx labels [0..<m] = Inr new"
    and dist: "distinct points_idx"
  shows "\<forall>c\<in>set new. children c = []"
    and "\<forall>c\<in>set new. distinct (clustered_points c)"
    and "\<forall>c\<in>set new. set (clustered_points c) \<subseteq> set points_idx"
    and "\<forall>i<length new. \<forall>j<length new. i \<noteq> j \<longrightarrow>
        set (clustered_points (new ! i)) \<inter> set (clustered_points (new ! j)) = {}"
proof -
  from cluster_nodes_Inr [OF new] have
    eq: "new = map (\<lambda>i. Node (str i) (map ((!) points_idx) (local_idx labels i)) []) [0..<m]"
    and range: "\<forall>i<m. \<forall>k\<in>set (local_idx labels i). k < length points_idx"
    by auto
  have len: "length new = m" by (simp add: eq)
  have nth: "clustered_points (new ! i) = map ((!) points_idx) (local_idx labels i)"
    if "i < m" for i using that by (simp add: eq)
  show "\<forall>c\<in>set new. children c = []" by (auto simp: eq)
  have d: "distinct (map ((!) points_idx) (local_idx labels i))" if "i < m" for i
  proof -
    have "inj_on ((!) points_idx) (set (local_idx labels i))"
    proof (rule inj_onI)
      fix k k' assume "k \<in> set (local_idx labels i)" "k' \<in> set (local_idx labels i)"
        "points_idx ! k = points_idx ! k'"
      with range that dist show "k = k'" by (simp add: nth_eq_iff_index_eq)
    qed
    then show ?thesis by (simp add: distinct_map distinct_local_idx)
  qed
  show "\<forall>c\<in>set new. distinct (clustered_points c)"
  proof
    fix c assume "c \<in> set new"
    then obtain i where "i < m" "c = new ! i" by (auto simp: in_set_conv_nth len)
    with d nth show "distinct (clustered_points c)" by simp
  qed
  show "\<forall>c\<in>set new. set (clustered_points c) \<subseteq> set points_idx"
  proof
    fix c assume "c \<in> set new"
    then obtain i where i: "i < m" "c = new ! i" by (auto simp: in_set_conv_nth len)
    with range have "\<forall>k\<in>set (local_idx labels i). k < length points_idx" by blast
    then show "set (clustered_points c) \<subseteq> set points_idx"
      using i nth by auto
  qed
  show "\<forall>i<length new. \<forall>j<length new. i \<noteq> j \<longrightarrow>
        set (clustered_points (new ! i)) \<inter> set (clustered_points (new ! j)) = {}"
  proof (intro allI impI)
    fix i j assume i: "i < length new" and j: "j < length new" and ne: "i \<noteq> j"
    show "set (clustered_points (new ! i)) \<inter> set (clustered_points (new ! j)) = {}"
    proof (rule ccontr)
      assume "set (clustered_points (new ! i)) \<inter> set (clustered_points (new ! j)) \<noteq> {}"
      then obtain x where "x \<in> set (clustered_points (new ! i))"
        "x \<in> set (clustered_points (new ! j))" by blast
      with i j len nth obtain k k' where
        k: "k \<in> set (local_idx labels i)" "x = points_idx ! k" and
        k': "k' \<in> set (local_idx labels j)" "x = points_idx ! k'"
        by auto
      from k(1) k'(1) range i j len have "k < length points_idx" "k' < length points_idx"
        by auto
      with k(2) k'(2) dist have "k = k'" by (simp add: nth_eq_iff_index_eq)
      with k(1) k'(1) have "int i = int j" by (simp add: set_local_idx)
      with ne show False by simp
    qed
  qed
qed

lemma run_dbscan_on_node_nested:
  assumes run: "run_dbscan_on_node cluster st points_idx e p = Inr st'"
    and inv: "nested_disjoint (progressive_clustering st)"
    and leaf: "node_at (progressive_clustering st) p = Some nd" "children nd = []"
    and dist: "distinct points_idx"
    and sub: "p \<noteq> [] \<longrightarrow> points_idx = points_at (progressive_clustering st) p"
  shows "nested_disjoint (progressive_clustering st')"
proof -
  from run obtain sub labels m new where
    new: "cluster_nodes points_idx labels [0..<nat (m + 1)] = Inr new" and
    st': "st' = st\<lparr> dbscan_performed := dbscan_performed st + 1,
              invocations := invocations st @ [(length p, e, points_idx)],
              progressive_clustering := add_children p new (progressive_clustering st) \<rparr>"
    by (rule run_dbscan_on_node_Inr)
  note c = cluster_nodes_disjoint [OF new dist]
  have "nested_disjoint (add_children p new (progressive_clustering st))"
    using inv leaf c(1) c(4) c(2)
  proof (rule nested_disjoint_add_children)
    show "p \<noteq> [] \<longrightarrow>
      (\<forall>c\<in>set new. set (clustered_points c) \<subseteq> set (points_at (progressive_clustering st) p))"
      using c(3) sub by auto
  qed
  then show ?thesis by (simp add: st')
qed

lemma run_level_nested:
  "run_level cluster e ps st = Inr st' \<Longrightarrow>
   nested_disjoint (progressive_clustering st) \<Longrightarrow>
   distinct ps \<Longrightarrow>
   \<forall>p\<in>set ps. length p = d \<and> p \<noteq> [] \<and>
      (\<exists>nd. node_at (progressive_clustering st) p = Some nd \<and> children nd = []) \<Longrightarrow>
   nested_disjoint (progressive_clustering st')"
proof (induction ps arbitrary: st)
  case Nil
  then show ?case by simp
next
  case (Cons p ps)
  let ?t = "progressive_clustering st"
  from Cons.prems(1) obtain s1 where
    1: "run_dbscan_on_node cluster st (points_at ?t p) e p = Inr s1"
    and 2: "run_level cluster e ps s1 = Inr st'"
    by (auto split: sum.splits)
  from Cons.prems(4) obtain nd where
    p: "length p = d" "p \<noteq> []" and leaf: "node_at ?t p = Some nd" "children nd = []"
    by auto
  have dist: "distinct (points_at ?t p)"
    using Cons.prems(2) by (simp add: nested_disjoint_def)
  have inv1: "nested_disjoint (progressive_clustering s1)"
    using 1 Cons.prems(2) leaf dist by (rule run_dbscan_on_node_nested) simp
  from 1 obtain new where
    t1: "progressive_clustering s1 = add_children p new ?t"
    by (auto elim!: run_dbscan_on_node_Inr)
  have rest: "\<forall>q\<in>set ps. length q = d \<and> q \<noteq> [] \<and>
      (\<exists>nd. node_at (progressive_clustering s1) q = Some nd \<and> children nd = [])"
  proof
    fix q assume q: "q \<in> set ps"
    with Cons.prems(3,4) p have "q \<noteq> p" "length q = length p" "q \<noteq> []" by auto
    then have "\<not> prefix p q" "\<not> prefix q p"
      by (auto simp: prefix_def)
    then have "node_at (progressive_clustering s1) q = node_at ?t q"
      unfolding t1 by (rule node_at_add_children_apart)
    with Cons.prems(4) q show "length q = d \<and> q \<noteq> [] \<and>
      (\<exists>nd. node_at (progressive_clustering s1) q = Some nd \<and> children nd = [])" by simp
  qed
  from Cons.prems(3) have "distinct ps" by simp
  from Cons.IH [OF 2 inv1 this rest] show ?case .
qed

lemma leaf_at_full_depth:
  assumes "node_at t p = Some nd" "\<forall>q. node_at t q \<noteq> None \<longrightarrow> length q \<le> length p"
  shows "children nd = []"
proof (rule ccontr)
  assume "children nd \<noteq> []"
  then have "node_at nd [0] \<noteq> None" by (cases nd) auto
  with assms(1) have "node_at t (p @ [0]) \<noteq> None" by (simp add: node_at_append)
  with assms(2) have "length (p @ [0]) \<le> length p" by blast
  then show False by simp
qed

lemma fit_loop_nested:
  assumes run: "fit_loop cluster md d0 e0 st = Some (Inr st')"
    and inv: "nested_disjoint (progressive_clustering st)"
    and d0: "1 \<le> d0"
    and height: "\<forall>q. node_at (progressive_clustering st) q \<noteq> None \<longrightarrow> length q \<le> d0"
  shows "nested_disjoint (progressive_clustering st')"
proof -
  let ?I = "\<lambda>(d::nat) (e::real) (s::variousDBSCAN).
     nested_disjoint (progressive_clustering s) \<and> 1 \<le> d \<and>
     (\<forall>q. node_at (progressive_clustering s) q \<noteq> None \<longrightarrow> length q \<le> d)"
  have "\<exists>d e. ?I d e st' \<and> (depth_reached d md \<or>
      filter (\<lambda>nd. length nd = d) (descendants (progressive_clustering st')) = [])"
  proof (rule fit_loop_invariant [OF run, where I = ?I])
    show "?I d0 e0 st" using inv d0 height by simp
  next
    fix d :: nat and e :: real and s s' :: variousDBSCAN
    let ?t = "progressive_clustering s"
    let ?next = "filter (\<lambda>nd. length nd = d) (descendants ?t)"
    assume I: "?I d e s"
      and lev: "run_level cluster (update_epsilon_func s e) ?next s = Inr s'"
    from I have n: "nested_disjoint ?t" and d: "1 \<le> d"
      and h: "\<forall>q. node_at ?t q \<noteq> None \<longrightarrow> length q \<le> d" by simp_all
    have leaves: "\<forall>p\<in>set ?next. length p = d \<and> p \<noteq> [] \<and>
      (\<exists>nd. node_at ?t p = Some nd \<and> children nd = [])"
    proof
      fix p assume "p \<in> set ?next"
      then have p: "length p = d" "p \<noteq> []" "node_at ?t p \<noteq> None"
        by (auto simp: set_descendants)
      then obtain nd where nd: "node_at ?t p = Some nd" by auto
      from h p(1) have "\<forall>q. node_at ?t q \<noteq> None \<longrightarrow> length q \<le> length p" by simp
      with nd have "children nd = []" by (rule leaf_at_full_depth)
      with p nd show "length p = d \<and> p \<noteq> [] \<and>
        (\<exists>nd. node_at ?t p = Some nd \<and> children nd = [])" by simp
    qed
    have dist: "distinct ?next" by (simp add: distinct_descendants)
    have 1: "nested_disjoint (progressive_clustering s')"
      using lev n dist leaves by (rule run_level_nested)
    have 2: "\<forall>q. node_at (progressive_clustering s') q \<noteq> None \<longrightarrow> length q \<le> d + 1"
    proof (intro allI impI)
      fix q assume "node_at (progressive_clustering s') q \<noteq> None"
      with run_level_effect [OF lev] have
        "node_at ?t q \<noteq> None \<or> length q \<in> (\<lambda>p. length p + 1) ` set ?next" by blast
      then show "length q \<le> d + 1" using h by auto
    qed
    from 1 2 d show "?I (d + 1) (update_epsilon_func s e) s'" by simp
  qed
  then show ?thesis by blast
qed

lemma nested_disjoint_root: "nested_disjoint (Node n [] [])"
proof -
  have "points_at (Node n [] []) q = []" for q
    by (cases q) (simp_all add: points_at_def)
  then show ?thesis by (simp add: nested_disjoint_def)
qed

lemma nested_chain:
  assumes "nested_disjoint t" "a \<noteq> []"
  shows "set (points_at t (a @ r)) \<subseteq> set (points_at t a)"
proof (induction r rule: rev_induct)
  case Nil
  show ?case by simp
next
  case (snoc i r)
  from assms(1) have "q \<noteq> [] \<Longrightarrow> set (points_at t (q @ [i])) \<subseteq> set (points_at t q)" for q
    by (simp add: nested_disjoint_def)
  from this [of "a @ r"] assms(2)
  have "set (points_at t (a @ r @ [i])) \<subseteq> set (points_at t (a @ r))" by simp
  with snoc show ?case by simp
qed

lemma nested_disjoint_parallel:
  assumes inv: "nested_disjoint t" and par: "\<not> prefix p q" "\<not> prefix q p"
  shows "set (points_at t p) \<inter> set (points_at t q) = {}"
proof -
  from par have "p \<parallel> q" by (rule parallelI)
  then obtain c i p' j q' where ne: "i \<noteq> j" and p: "p = c @ i # p'" and q: "q = c @ j # q'"
    using parallel_decomp by blast
  have "set (points_at t ((c @ [i]) @ p')) \<subseteq> set (points_at t (c @ [i]))"
    using inv by (rule nested_chain) simp
  moreover have "set (points_at t ((c @ [j]) @ q')) \<subseteq> set (points_at t (c @ [j]))"
    using inv by (rule nested_chain) simp
  moreover have "set (points_at t (c @ [i])) \<inter> set (points_at t (c @ [j])) = {}"
    using inv ne by (simp add: nested_disjoint_def)
  ultimately show ?thesis using p q by auto
qed

text \<open>After overlap resolution no two nodes share a point.\<close>

lemma resolved_disjoint:
  assumes inv: "nested_disjoint t" and S: "S = set (descendants t)" and ne: "p \<noteq> q"
  shows "set (resolved_points t S p) \<inter> set (resolved_points t S q) = {}"
proof -
  have sub: "set (resolved_points t S a) \<subseteq> set (points_at t a)" for a
    by (auto simp: set_resolved_points)
  have below: "set (resolved_points t S a) \<inter> set (resolved_points t S b) = {}"
    if ab: "strict_prefix a b" for a b
  proof (cases "node_at t b = None")
    case True
    then have "points_at t b = []" by (rule points_at_invalid)
    with sub [of b] show ?thesis by auto
  next
    case False
    from ab have "b \<noteq> []" by auto
    with False have "b \<in> S" by (simp add: S set_descendants)
    with ab have "set (resolved_points t S a) \<inter> set (points_at t b) = {}"
      by (auto simp: set_resolved_points)
    with sub [of b] show ?thesis by auto
  qed
  consider "strict_prefix p q" | "strict_prefix q p" | "\<not> prefix p q" "\<not> prefix q p"
    using ne by (auto simp: strict_prefix_def)
  then show ?thesis
  proof cases
    case 1
    then show ?thesis by (rule below)
  next
    case 2
    then have "set (resolved_points t S q) \<inter> set (resolved_points t S p) = {}" by (rule below)
    then show ?thesis by auto
  next
    case 3
    with inv have "set (points_at t p) \<inter> set (points_at t q) = {}"
      by (rule nested_disjoint_parallel)
    with sub [of p] sub [of q] show ?thesis by auto
  qed
qed

lemma fit_fresh_nested:
  assumes init: "init dm original_epsilon mp update_epsilon = Inr st"
    and fit: "fit cluster st md = Some (Inr (st', cl))"
  obtains t where "nested_disjoint t"
    "\<forall>a. points_at (progressive_clustering st') a = resolved_points t (set (descendants t)) a"
proof -
  note i = init_Inr [OF init]
  from fit obtain st1 st2 where
    1: "run_dbscan_on_node cluster st [0..<n_points st] (epsilon st) [] = Inr st1" and
    2: "fit_loop cluster md 1 (epsilon st) st1 = Some (Inr st2)" and
    3: "(st', cl) = extraction (remove_child_cluster_points_from_parents st2)"
    by (rule fit_Inr)
  have root: "node_at (progressive_clustering st) [] = Some (Node '''' [] [])"
    "children (Node '''' [] []) = []"
    by (simp_all add: i(4))
  have n0: "nested_disjoint (progressive_clustering st)"
    by (simp add: i(4) nested_disjoint_root)
  have n1: "nested_disjoint (progressive_clustering st1)"
    using 1 n0 root by (rule run_dbscan_on_node_nested) simp_all
  have h1: "\<forall>q. node_at (progressive_clustering st1) q \<noteq> None \<longrightarrow> length q \<le> 1"
  proof (intro allI impI)
    fix q assume "node_at (progressive_clustering st1) q \<noteq> None"
    from run_dbscan_on_node_effect(4) [OF 1 this] show "length q \<le> 1"
      by (cases q) (auto simp: i(4))
  qed
  have n2: "nested_disjoint (progressive_clustering st2)"
    using 2 n1 _ h1 by (rule fit_loop_nested) simp
  from 3 have "progressive_clustering st' =
      fold remove_from_parents
        (sort_key (\<lambda>x. - int (length x)) (descendants (progressive_clustering st2)))
        (progressive_clustering st2)"
    by (simp add: extraction_def Let_def remove_child_cluster_points_from_parents_def)
  then have "points_at (progressive_clustering st') a =
      resolved_points (progressive_clustering st2)
        (set (descendants (progressive_clustering st2))) a" for a
    by (simp add: points_at_fold_remove)
  then have "\<forall>a. points_at (progressive_clustering st') a =
      resolved_points (progressive_clustering st2)
        (set (descendants (progressive_clustering st2))) a" by blast
  with n2 show ?thesis by (rule that)
qed

section \<open>The claims\<close>


text \<open>C1. For every run of \<open>fit\<close> on a fresh instance that returns clusters, two clusters
  at different positions of the returned list have no index in common. In the tree after
  overlap resolution no two nodes share a point: in particular the points of a node are
  disjoint from the union of the points of its descendants, and an index is in the points
  of at most one node. Nothing is asked of the primitive: a run in which it misbehaves ends
  in an error.\<close>

theorem clusters_disjoint:
  assumes "init dm original_epsilon mp update_epsilon = Inr st"
    and "fit cluster st md = Some (Inr (st', cl))"
  shows "(\<forall>i<length cl. \<forall>j<length cl. i \<noteq> j \<longrightarrow> set (cl ! i) \<inter> set (cl ! j) = {})
    \<and> (\<forall>p q. p \<noteq> q \<longrightarrow>
          set (points_at (progressive_clustering st') p)
            \<inter> set (points_at (progressive_clustering st') q) = {})
    \<and> (\<forall>p. set (points_at (progressive_clustering st') p)
            \<inter> (\<Union>q\<in>{q. strict_prefix p q}. set (points_at (progressive_clustering st') q)) = {})"
proof -
  let ?t' = "progressive_clustering st'"
  from assms obtain t where t: "nested_disjoint t"
    "\<forall>a. points_at ?t' a = resolved_points t (set (descendants t)) a"
    by (rule fit_fresh_nested)
  have nodes: "set (points_at ?t' p) \<inter> set (points_at ?t' q) = {}" if "p \<noteq> q" for p q
    using resolved_disjoint [OF t(1) refl that] by (simp add: t(2))
  from fit_clusters [OF assms(2)]
  have cl: "cl = map (points_at ?t') (extract_nodes st')" by simp
  have dist: "distinct (extract_nodes st')"
    unfolding extract_nodes_def by (simp add: distinct_descendants)
  have 1: "\<forall>i<length cl. \<forall>j<length cl. i \<noteq> j \<longrightarrow> set (cl ! i) \<inter> set (cl ! j) = {}"
  proof (intro allI impI)
    fix i j assume i: "i < length cl" and j: "j < length cl" and ne: "i \<noteq> j"
    with cl dist have "extract_nodes st' ! i \<noteq> extract_nodes st' ! j"
      by (simp add: nth_eq_iff_index_eq)
    from nodes [OF this] i j cl show "set (cl ! i) \<inter> set (cl ! j) = {}" by simp
  qed
  have 3: "set (points_at ?t' p) \<inter> (\<Union>q\<in>{q. strict_prefix p q}. set (points_at ?t' q)) = {}"
    for p
  proof -
    have "set (points_at ?t' p) \<inter> set (points_at ?t' q) = {}" if "strict_prefix p q" for q
      using that by (intro nodes) auto
    then show ?thesis by blast
  qed
  from 1 nodes 3 show ?thesis by blast
qed

theorem clusters_disjoint_witness:
  "init example_matrix (1 / 2) (PyInt 1) None = Inr (example_state\<lparr> min_points := 1 \<rparr>)
   \<and> observe (fit example_cluster (example_state\<lparr> min_points := 1 \<rparr>) NpInf) =
       Some (Inr (Node '''' [] [Node ''0'' [4] [Node ''0'' [0, 1] [], Node ''1'' [2, 3] []]],
                4,
                [(0, 1 / 2, [0, 1, 2, 3, 4]), (1, 1 / 4, [0, 1, 2, 3, 4]),
                 (2, 1 / 8, [0, 1]), (2, 1 / 8, [2, 3])],
                [[0, 1], [2, 3], [4]]))
   \<and> set ([[0, 1], [2, 3], [4 :: nat]] ! 0) \<inter> set ([[0, 1], [2, 3], [4]] ! 1) = {}
   \<and> set ([[0, 1], [2, 3], [4 :: nat]] ! 0) \<inter> set ([[0, 1], [2, 3], [4]] ! 2) = {}
   \<and> set ([[0, 1], [2, 3], [4 :: nat]] ! 1) \<inter> set ([[0, 1], [2, 3], [4]] ! 2) = {}"
proof -
  let ?st = "example_state\<lparr> min_points := 1 \<rparr>"
  have i: "init example_matrix (1 / 2) (PyInt 1) None = Inr ?st"
    by (simp add: init_def example_state_def example_matrix_def example_positions_def)
  have o: "observe (fit example_cluster ?st NpInf) =
       Some (Inr (Node '''' [] [Node ''0'' [4] [Node ''0'' [0, 1] [], Node ''1'' [2, 3] []]],
                4,
                [(0, 1 / 2, [0, 1, 2, 3, 4]), (1, 1 / 4, [0, 1, 2, 3, 4]),
                 (2, 1 / 8, [0, 1]), (2, 1 / 8, [2, 3])],
                [[0, 1], [2, 3], [4]]))"
    by code_simp
  then obtain st' where
    h: "fit example_cluster ?st NpInf = Some (Inr (st', [[0, 1], [2, 3], [4]]))"
    by (rule observe_Inr)
  from clusters_disjoint [OF i h]
  have d: "\<forall>i<length [[0, 1], [2, 3], [4 :: nat]]. \<forall>j<length [[0, 1], [2, 3], [4 :: nat]].
      i \<noteq> j \<longrightarrow> set ([[0, 1], [2, 3], [4 :: nat]] ! i) \<inter> set ([[0, 1], [2, 3], [4]] ! j) = {}"
    by (rule conjunct1)
  have "set ([[0, 1], [2, 3], [4 :: nat]] ! 0) \<inter> set ([[0, 1], [2, 3], [4]] ! 1) = {}"
    using d [rule_format, of 0 1] by simp
  moreover have "set ([[0, 1], [2, 3], [4 :: nat]] ! 0) \<inter> set ([[0, 1], [2, 3], [4]] ! 2) = {}"
    using d [rule_format, of 0 2] by simp
  moreover have "set ([[0, 1], [2, 3], [4 :: nat]] ! 1) \<inter> set ([[0, 1], [2, 3], [4]] ! 2) = {}"
    using d [rule_format, of 1 2] by simp
  ultimately show ?thesis using i o by blast
qed

text \<open>C2. Every cluster in the list returned by \<open>fit\<close> has at least \<open>min_points\<close>
  indices: the list is made of the points of the nodes that pass the size test after
  overlap resolution, and of no other node.\<close>

theorem size_floor:
  assumes "fit cluster st md = Some (Inr (st', cl))"
  shows "(\<forall>c\<in>set cl. min_points st \<le> int (length c)) \<and>
    cl = map (points_at (progressive_clustering st'))
           (filter (\<lambda>nd. min_points st \<le> int (length (points_at (progressive_clustering st') nd)))
              (sort_key (\<lambda>x. - (int (length x) + 1)) (descendants (progressive_clustering st'))))"
  using fit_clusters [OF assms] fit_min_points [OF assms]
  by (auto simp: extract_nodes_def)

theorem size_floor_witness:
  "observe (fit example_cluster example_state NpInf) =
     Some (Inr (Node '''' [] [Node ''0'' [4] [Node ''0'' [0, 1] [], Node ''1'' [2, 3] []]],
                4,
                [(0, 1 / 2, [0, 1, 2, 3, 4]), (1, 1 / 4, [0, 1, 2, 3, 4]),
                 (2, 1 / 8, [0, 1]), (2, 1 / 8, [2, 3])],
                [[0, 1], [2, 3]]))
   \<and> list_all (\<lambda>c. min_points example_state \<le> int (length c)) [[0, 1], [2, 3 :: nat]]"
proof -
  from observe_example obtain st' where
    h: "fit example_cluster example_state NpInf = Some (Inr (st', [[0, 1], [2, 3]]))"
    by (rule observe_Inr)
  from size_floor [OF h]
  have "\<forall>c\<in>set [[0, 1], [2, 3 :: nat]]. min_points example_state \<le> int (length c)"
    by (rule conjunct1)
  then have "list_all (\<lambda>c. min_points example_state \<le> int (length c)) [[0, 1], [2, 3 :: nat]]"
    by (simp only: list_all_iff)
  with observe_example show ?thesis by (rule conjI)
qed

text \<open>C3. The list returned by \<open>fit\<close> lists the points of distinct non-root nodes in
  order of non-increasing depth (the depth of a node is the length of its path).\<close>

theorem depth_ordering:
  assumes "fit cluster st md = Some (Inr (st', cl))"
  shows "cl = map (points_at (progressive_clustering st')) (extract_nodes st') \<and>
    sorted_wrt (\<lambda>p q. length q \<le> length p) (extract_nodes st') \<and>
    distinct (extract_nodes st') \<and>
    set (extract_nodes st') \<subseteq> set (descendants (progressive_clustering st'))"
proof -
  have "sorted_wrt (\<lambda>p q. length q \<le> length p) (extract_nodes st')"
    unfolding extract_nodes_def by (intro sorted_wrt_filter sorted_wrt_depth_sort_key)
  moreover have "distinct (extract_nodes st')"
    unfolding extract_nodes_def by (simp add: distinct_descendants)
  moreover have "set (extract_nodes st') \<subseteq> set (descendants (progressive_clustering st'))"
    unfolding extract_nodes_def by auto
  ultimately show ?thesis using fit_clusters [OF assms] by simp
qed

theorem depth_ordering_witness:
  "observe (fit example_cluster example_state (MaxDepth 2)) =
     Some (Inr (Node '''' [] [Node ''0'' [4] [Node ''0'' [0, 1] [], Node ''1'' [2, 3] []]],
                2,
                [(0, 1 / 2, [0, 1, 2, 3, 4]), (1, 1 / 4, [0, 1, 2, 3, 4])],
                [[0, 1], [2, 3]]))
   \<and> (\<exists>st'. fit example_cluster example_state (MaxDepth 2) = Some (Inr (st', [[0, 1], [2, 3]]))
        \<and> extract_nodes st' = [[0, 0], [0, 1]]
        \<and> sorted_wrt (\<lambda>p q. length q \<le> length p) (extract_nodes st'))"
proof -
  have o: "observe (fit example_cluster example_state (MaxDepth 2)) =
     Some (Inr (Node '''' [] [Node ''0'' [4] [Node ''0'' [0, 1] [], Node ''1'' [2, 3] []]],
                2,
                [(0, 1 / 2, [0, 1, 2, 3, 4]), (1, 1 / 4, [0, 1, 2, 3, 4])],
                [[0, 1], [2, 3]]))"
    by code_simp
  then obtain st' where
    h: "fit example_cluster example_state (MaxDepth 2) = Some (Inr (st', [[0, 1], [2, 3]]))"
    and t: "progressive_clustering st' =
       Node '''' [] [Node ''0'' [4] [Node ''0'' [0, 1] [], Node ''1'' [2, 3] []]]"
    by (rule observe_Inr)
  have "min_points st' = 2"
    using fit_min_points [OF h] by (simp add: example_state_def)
  with t have "extract_nodes st' = [[0, 0], [0, 1]]"
    by (simp add: extract_nodes_def points_at_def)
  with depth_ordering [OF h] h o show ?thesis by blast
qed

text \<open>C4 (as amended). In a run of \<open>fit\<close> on a fresh instance, every invocation of the
  primitive on a node of depth \<open>d\<close> (the root has depth 0) is made with the radius obtained
  from the original radius by \<open>d\<close> applications of the update function, which is the
  function given to the constructor or, by default, the halving of a binary64 float. Hence
  the radius used at depth \<open>d + 1\<close> is the update of the radius used at depth \<open>d\<close>. With the
  default update function the radius at depth \<open>d\<close> is the original radius divided by
  \<open>2 ^ d\<close> when the original radius is a multiple of \<open>2 ^ d\<close> times the smallest positive
  binary64 value \<open>2 ^ - 1074\<close>, that is when no halving underflows; and for a binary64
  original radius (a multiple of \<open>2 ^ - 1074\<close>) it is so only then.\<close>

theorem radius_schedule:
  assumes "init dm original_epsilon mp update_epsilon = Inr st"
    and "fit cluster st md = Some (Inr (st', cl))"
  shows "update_epsilon_func st = (case update_epsilon of None \<Rightarrow> py_halve | Some f \<Rightarrow> f)
    \<and> (\<forall>(d, r, pts)\<in>set (invocations st'). r = (update_epsilon_func st ^^ d) original_epsilon)
    \<and> (\<forall>(d, r, pts)\<in>set (invocations st'). \<forall>(d', r', pts')\<in>set (invocations st').
          d' = d + 1 \<longrightarrow> r' = update_epsilon_func st r)
    \<and> (update_epsilon = None \<longrightarrow>
          (\<forall>(d, r, pts)\<in>set (invocations st').
              (\<exists>m::int. original_epsilon = of_int (m * 2 ^ d) / subnormal_scale)
                \<longrightarrow> r = original_epsilon / 2 ^ d)
          \<and> (\<forall>(d, r, pts)\<in>set (invocations st').
              (\<exists>m::int. original_epsilon = of_int m / subnormal_scale)
                \<and> r = original_epsilon / 2 ^ d
                \<longrightarrow> (\<exists>m::int. original_epsilon = of_int (m * 2 ^ d) / subnormal_scale)))"
proof -
  note i = init_Inr [OF assms(1)]
  from assms(2) obtain st1 es where
    inv: "invocations st' = invocations st @ (0, epsilon st, [0..<n_points st]) # es" and
    es: "\<forall>x\<in>set es. 1 \<le> fst x \<and> \<not> depth_reached (fst x) md \<and>
        fst (snd x) = (update_epsilon_func st ^^ fst x) (epsilon st)"
    by (rule fit_effect)
  have all: "fst (snd x) = (update_epsilon_func st ^^ fst x) original_epsilon"
    if "x \<in> set (invocations st')" for x
    using that inv es i(1) i(2) by auto
  have 1: "\<forall>(d, r, pts)\<in>set (invocations st'). r = (update_epsilon_func st ^^ d) original_epsilon"
    using all by fastforce
  have 2: "\<forall>(d, r, pts)\<in>set (invocations st'). \<forall>(d', r', pts')\<in>set (invocations st').
          d' = d + 1 \<longrightarrow> r' = update_epsilon_func st r"
  proof (clarify)
    fix d r pts r' pts'
    assume "(d, r, pts) \<in> set (invocations st')" "(d + 1, r', pts') \<in> set (invocations st')"
    from all [OF this(1)] all [OF this(2)] show "r' = update_epsilon_func st r" by simp
  qed
  have 3: "\<forall>(d, r, pts)\<in>set (invocations st').
              (\<exists>m::int. original_epsilon = of_int (m * 2 ^ d) / subnormal_scale)
                \<longrightarrow> r = original_epsilon / 2 ^ d"
    if none: "update_epsilon = None"
  proof (clarify)
    fix d r pts and m :: int
    assume in_log: "(d, r, pts) \<in> set (invocations st')"
      and m: "original_epsilon = of_int (m * 2 ^ d) / subnormal_scale"
    from all [OF in_log] i(5) none have "r = (py_halve ^^ d) original_epsilon" by simp
    also have "\<dots> = original_epsilon / 2 ^ d" using m by (rule py_halve_funpow_exact)
    finally show "r = real_of_int (m * 2 ^ d) / subnormal_scale / 2 ^ d" unfolding m .
  qed
  have 4: "\<forall>(d, r, pts)\<in>set (invocations st').
              (\<exists>m::int. original_epsilon = of_int m / subnormal_scale)
                \<and> r = original_epsilon / 2 ^ d
                \<longrightarrow> (\<exists>m::int. original_epsilon = of_int (m * 2 ^ d) / subnormal_scale)"
    if none: "update_epsilon = None"
  proof -
    have "\<exists>m'::int. original_epsilon = of_int (m' * 2 ^ d) / subnormal_scale"
      if in_log: "(d, r, pts) \<in> set (invocations st')"
        and m: "original_epsilon = of_int m / subnormal_scale"
        and r: "r = original_epsilon / 2 ^ d" for d r pts and m :: int
    proof -
      from all [OF in_log] i(5) none r
      have "(py_halve ^^ d) original_epsilon = original_epsilon / 2 ^ d" by simp
      with m show ?thesis by (rule py_halve_funpow_inexact)
    qed
    then show ?thesis by blast
  qed
  from i(5) 1 2 3 4 show ?thesis by blast
qed

theorem radius_schedule_witness:
  "init example_matrix (1 / 2) (PyInt 2) None = Inr example_state
   \<and> (\<exists>st'. fit example_cluster example_state NpInf = Some (Inr (st', [[0, 1], [2, 3]]))
        \<and> invocations st' = [(0, 1 / 2, [0, 1, 2, 3, 4]), (1, 1 / 4, [0, 1, 2, 3, 4]),
                              (2, 1 / 8, [0, 1]), (2, 1 / 8, [2, 3])]
        \<and> list_all (\<lambda>(d, r, pts). \<exists>m::int. 1 / 2 = of_int (m * 2 ^ d) / subnormal_scale)
             (invocations st')
        \<and> list_all (\<lambda>(d, r, pts). r = (1 / 2) / 2 ^ d) (invocations st'))"
proof -
  from observe_example obtain st' where
    h: "fit example_cluster example_state NpInf = Some (Inr (st', [[0, 1], [2, 3]]))"
    and i: "invocations st' = [(0, 1 / 2, [0, 1, 2, 3, 4]), (1, 1 / 4, [0, 1, 2, 3, 4]),
                              (2, 1 / 8, [0, 1]), (2, 1 / 8, [2, 3])]"
    by (rule observe_Inr)
  have grid: "\<exists>m::int. 1 / 2 = real_of_int (m * 2 ^ d) / subnormal_scale"
    if "(d, r, pts) \<in> set (invocations st')" for d r pts
  proof -
    from that i have "d \<le> 1073" by auto
    then show ?thesis by (rule half_on_grid)
  qed
  from radius_schedule [OF init_example h]
  have "\<forall>(d, r, pts)\<in>set (invocations st').
      (\<exists>m::int. 1 / 2 = of_int (m * 2 ^ d) / subnormal_scale) \<longrightarrow> r = (1 / 2) / 2 ^ d"
    by blast
  with grid have "\<forall>(d, r, pts)\<in>set (invocations st'). r = (1 / 2) / 2 ^ d" by blast
  then have 1: "list_all (\<lambda>(d, r, pts). r = (1 / 2) / 2 ^ d) (invocations st')"
    by (simp only: list_all_iff)
  from grid have "\<forall>(d, r, pts)\<in>set (invocations st').
      \<exists>m::int. 1 / 2 = real_of_int (m * 2 ^ d) / subnormal_scale" by blast
  then have 2: "list_all (\<lambda>(d, r, pts). \<exists>m::int. 1 / 2 = of_int (m * 2 ^ d) / subnormal_scale)
             (invocations st')"
    by (simp only: list_all_iff)
  from init_example h i 1 2 show ?thesis by blast
qed

text \<open>C4 as stated fails when a halving underflows. From the radius \<open>11 * 2 ^ - 1074\<close>, a
  binary64 value, the default update function gives 6, 3 and then 2 times \<open>2 ^ - 1074\<close>:
  the invocation at depth 3 is made with the radius \<open>2 * 2 ^ - 1074\<close>, and the original
  radius divided by \<open>2 ^ 3\<close> is \<open>11 / 8 * 2 ^ - 1074\<close>.\<close>

theorem radius_schedule_counterexample:
  "init [[0]] (11 / subnormal_scale) (PyInt 1) None = Inr underflow_state
   \<and> (\<exists>st'. fit coincident_cluster underflow_state (MaxDepth 4) = Some (Inr (st', [[0]]))
        \<and> invocations st' = [(0, 11 / subnormal_scale, [0]), (1, 6 / subnormal_scale, [0]),
                              (2, 3 / subnormal_scale, [0]), (3, 2 / subnormal_scale, [0])])
   \<and> 2 / subnormal_scale \<noteq> (11 / subnormal_scale) / 2 ^ 3"
proof -
  from observe_underflow obtain st' where
    "fit coincident_cluster underflow_state (MaxDepth 4) = Some (Inr (st', [[0]]))"
    "invocations st' = [(0, 11 / subnormal_scale, [0]), (1, 6 / subnormal_scale, [0]),
                        (2, 3 / subnormal_scale, [0]), (3, 2 / subnormal_scale, [0])]"
    by (rule observe_Inr)
  moreover have "2 / subnormal_scale \<noteq> (11 / subnormal_scale) / 2 ^ 3"
    using subnormal_scale_pos by (simp add: field_simps)
  ultimately show ?thesis using init_underflow by blast
qed

text \<open>C5 (as amended). For every integer \<open>k\<close> and every update function,
  \<open>fit(max_depth = k)\<close> returns (a result or an error). On a fresh instance the tree it builds
  has no node deeper than \<open>max k 1\<close>, and the primitive is invoked only on nodes of depth below
  \<open>max k 1\<close>: the invocation on the root, which creates the nodes of depth 1, is made before
  the bound is looked at.\<close>

theorem bounded_depth:
  "(\<exists>r. fit cluster st (MaxDepth k) = Some r) \<and>
   (init dm original_epsilon mp update_epsilon = Inr st \<longrightarrow>
    fit cluster st (MaxDepth k) = Some (Inr (st', cl)) \<longrightarrow>
      (\<forall>p\<in>set (descendants (progressive_clustering st')). int (length p) \<le> max k 1) \<and>
      (\<forall>(d, r, pts)\<in>set (invocations st'). int d < max k 1))"
proof (intro conjI impI)
  show "\<exists>r. fit cluster st (MaxDepth k) = Some r" by (rule fit_terminates)
next
  assume init: "init dm original_epsilon mp update_epsilon = Inr st"
    and fit: "fit cluster st (MaxDepth k) = Some (Inr (st', cl))"
  note i = init_Inr [OF init]
  from fit obtain st1 es where
    inv: "invocations st' = invocations st @ (0, epsilon st, [0..<n_points st]) # es" and
    es: "\<forall>x\<in>set es. 1 \<le> fst x \<and> \<not> depth_reached (fst x) (MaxDepth k) \<and>
        fst (snd x) = (update_epsilon_func st ^^ fst x) (epsilon st)" and
    val: "\<forall>q\<in>set (descendants (progressive_clustering st')).
        q \<in> set (descendants (progressive_clustering st)) \<or> length q = 1 \<or>
        (\<exists>k'. length q = k' + 1 \<and> 1 \<le> k' \<and> \<not> depth_reached k' (MaxDepth k))"
    by (rule fit_effect)
  show "\<forall>p\<in>set (descendants (progressive_clustering st')). int (length p) \<le> max k 1"
  proof
    fix p assume "p \<in> set (descendants (progressive_clustering st'))"
    with val i(4) consider "length p = 1"
      | k' where "length p = k' + 1" "\<not> depth_reached k' (MaxDepth k)" by auto
    then show "int (length p) \<le> max k 1"
      by cases auto
  qed
  have "int (fst x) < max k 1" if "x \<in> set (invocations st')" for x
    using that inv es i(2) by auto
  then show "\<forall>(d, r, pts)\<in>set (invocations st'). int d < max k 1"
    by fastforce
qed

theorem bounded_depth_witness:
  "init example_matrix (1 / 2) (PyInt 2) None = Inr example_state
   \<and> (\<exists>st'. fit example_cluster example_state (MaxDepth 2) = Some (Inr (st', [[0, 1], [2, 3]]))
        \<and> descendants (progressive_clustering st') = [[0], [0, 0], [0, 1]]
        \<and> invocations st' = [(0, 1 / 2, [0, 1, 2, 3, 4]), (1, 1 / 4, [0, 1, 2, 3, 4])]
        \<and> list_all (\<lambda>p. int (length p) \<le> max 2 1) (descendants (progressive_clustering st'))
        \<and> list_all (\<lambda>(d, r, pts). int d < max 2 1) (invocations st'))"
proof -
  have "observe (fit example_cluster example_state (MaxDepth 2)) =
     Some (Inr (Node '''' [] [Node ''0'' [4] [Node ''0'' [0, 1] [], Node ''1'' [2, 3] []]],
                2,
                [(0, 1 / 2, [0, 1, 2, 3, 4]), (1, 1 / 4, [0, 1, 2, 3, 4])],
                [[0, 1], [2, 3]]))"
    by code_simp
  then obtain st' where
    h: "fit example_cluster example_state (MaxDepth 2) = Some (Inr (st', [[0, 1], [2, 3]]))"
    and t: "progressive_clustering st' =
       Node '''' [] [Node ''0'' [4] [Node ''0'' [0, 1] [], Node ''1'' [2, 3] []]]"
    and n: "dbscan_performed st' = 2"
    and i: "invocations st' = [(0, 1 / 2, [0, 1, 2, 3, 4]), (1, 1 / 4, [0, 1, 2, 3, 4])]"
    by (rule observe_Inr)
  have d: "descendants (progressive_clustering st') = [[0], [0, 0], [0, 1]]"
    unfolding t by code_simp
  from bounded_depth [of example_cluster example_state 2 example_matrix "1 / 2" "PyInt 2" None
      st' "[[0, 1], [2, 3]]"] init_example h
  have "(\<forall>p\<in>set (descendants (progressive_clustering st')). int (length p) \<le> max 2 1) \<and>
      (\<forall>(d, r, pts)\<in>set (invocations st'). int d < max 2 1)"
    by blast
  then have "list_all (\<lambda>p. int (length p) \<le> max 2 1) (descendants (progressive_clustering st'))"
    and "list_all (\<lambda>(d, r, pts). int d < max 2 1) (invocations st')"
    unfolding list_all_iff by (rule conjunct1, rule conjunct2)
  with init_example h d i show ?thesis by blast
qed

text \<open>C5 as stated fails for \<open>k = 0\<close>: the run invokes the primitive on the root, a node of
  depth 0, and the tree has a node of depth 1.\<close>

theorem bounded_depth_counterexample:
  "init example_matrix (1 / 2) (PyInt 2) None = Inr example_state
   \<and> observe (fit example_cluster example_state (MaxDepth 0)) =
       Some (Inr (Node '''' [] [Node ''0'' [0, 1, 2, 3, 4] []], 1,
                  [(0, 1 / 2, [0, 1, 2, 3, 4])], [[0, 1, 2, 3, 4]]))
   \<and> descendants (Node '''' [] [Node ''0'' [0, 1, 2, 3, 4] []]) = [[0]]
   \<and> (0 :: int) < int (length [0 :: nat])"
proof -
  have "observe (fit example_cluster example_state (MaxDepth 0)) =
       Some (Inr (Node '''' [] [Node ''0'' [0, 1, 2, 3, 4] []], 1,
                  [(0, 1 / 2, [0, 1, 2, 3, 4])], [[0, 1, 2, 3, 4]]))"
    by code_simp
  moreover have "descendants (Node '''' [] [Node ''0'' [0, 1, 2, 3, 4] []]) = [[0]]"
    by code_simp
  ultimately show ?thesis using init_example by simp
qed

text \<open>C6. Let the primitive keep its contract: one label per point of the subset, the
  cluster labels numbered from 0 without a gap, a negative label for noise. Then a call of
  \<open>run_dbscan_on_node\<close> that returns has run the primitive once, on the sub-matrix of the
  subset, and has increased the counter by exactly one. The distinct non-negative labels
  are \<open>0..k-1\<close> for some \<open>k\<close>, and the call has appended \<open>k\<close> children to the children of
  the parent, the child of the label \<open>i\<close> at position \<open>i\<close> among them: it owns the original
  indices at the positions labelled \<open>i\<close>, and it is not empty. A position labelled as noise
  is in no child: when the subset has no repeated index, its index is in no child.\<close>

theorem run_dbscan_on_node_children:
  assumes "primitive_contract cluster"
    and "run_dbscan_on_node cluster st points_idx new_eps parent_node = Inr st'"
  shows "\<exists>sub labels k new.
      submatrix (distance_matrix st) points_idx = Inr sub \<and>
      cluster sub new_eps (min_points st) = Inr labels \<and>
      length labels = length points_idx \<and>
      {l \<in> set labels. 0 \<le> l} = int ` {0..<k} \<and>
      new = map (\<lambda>i. Node (str i)
                   (map ((!) points_idx)
                      (filter (\<lambda>j. labels ! j = int i) [0..<length points_idx])) [])
                [0..<k] \<and>
      progressive_clustering st' = add_children parent_node new (progressive_clustering st) \<and>
      (\<forall>nd. node_at (progressive_clustering st) parent_node = Some nd \<longrightarrow>
         node_at (progressive_clustering st') parent_node
           = Some (Node (name nd) (clustered_points nd) (children nd @ new))) \<and>
      dbscan_performed st' = dbscan_performed st + 1 \<and>
      invocations st' = invocations st @ [(length parent_node, new_eps, points_idx)] \<and>
      (\<forall>i<k. clustered_points (new ! i) \<noteq> [] \<and>
         set (clustered_points (new ! i))
           = {points_idx ! j | j. j < length points_idx \<and> labels ! j = int i}) \<and>
      (distinct points_idx \<longrightarrow>
         (\<forall>j<length points_idx. labels ! j < 0 \<longrightarrow>
            (\<forall>c\<in>set new. points_idx ! j \<notin> set (clustered_points c))))"
proof -
  from assms(2) obtain sub labels m new where
    sub: "submatrix (distance_matrix st) points_idx = Inr sub" and
    labels: "cluster sub new_eps (min_points st) = Inr labels" and
    m: "py_max labels = Inr m" and
    new: "cluster_nodes points_idx labels [0..<nat (m + 1)] = Inr new" and
    st': "st' = st\<lparr> dbscan_performed := dbscan_performed st + 1,
              invocations := invocations st @ [(length parent_node, new_eps, points_idx)],
              progressive_clustering := add_children parent_node new (progressive_clustering st) \<rparr>"
    by (rule run_dbscan_on_node_Inr)
  define k where "k = nat (m + 1)"
  define pts where
    "pts i = map ((!) points_idx) (filter (\<lambda>j. labels ! j = int i) [0..<length points_idx])"
    for i :: nat
  from py_max_Inr [OF m] have ne: "labels \<noteq> []" and mx: "m = Max (set labels)" by simp_all
  from assms(1) labels have "length labels = length sub" and nz: "numbered_from_zero labels"
    unfolding primitive_contract_def by blast+
  with submatrix_length [OF sub] have len: "length labels = length points_idx" by simp
  from numbered_from_zero_contiguous [OF nz ne]
  have contiguous: "\<forall>i<k. int i \<in> set labels" unfolding k_def mx .
  from card_nonneg_labels [OF ne] contiguous
  have "card {l \<in> set labels. 0 \<le> l} = k" unfolding k_def mx by simp
  have labs: "{l \<in> set labels. 0 \<le> l} = int ` {0..<k}"
  proof (intro set_eqI iffI)
    fix l assume "l \<in> {l \<in> set labels. 0 \<le> l}"
    then have l: "l \<in> set labels" "0 \<le> l" by auto
    then have "l \<le> m" unfolding mx by simp
    with l(2) have "nat l < k" "l = int (nat l)" unfolding k_def by auto
    then show "l \<in> int ` {0..<k}" by (metis atLeast0LessThan image_eqI lessThan_iff)
  next
    fix l assume "l \<in> int ` {0..<k}"
    then show "l \<in> {l \<in> set labels. 0 \<le> l}" using contiguous by auto
  qed
  have idx: "local_idx labels i = filter (\<lambda>j. labels ! j = int i) [0..<length points_idx]"
    for i by (simp add: local_idx_def len)
  from cluster_nodes_Inr [OF new]
  have new_eq: "new = map (\<lambda>i. Node (str i) (pts i) []) [0..<k]"
    unfolding k_def pts_def idx by simp
  have nth_new: "clustered_points (new ! i) = pts i" if "i < k" for i
    using that unfolding new_eq by simp
  have set_pts: "set (pts i) = {points_idx ! j | j. j < length points_idx \<and> labels ! j = int i}"
    for i unfolding pts_def by auto
  have nonempty: "pts i \<noteq> []" if "i < k" for i
  proof -
    from that contiguous have "int i \<in> set labels" by simp
    from local_idx_nonempty [OF this] show ?thesis unfolding pts_def idx by simp
  qed
  have noise: "points_idx ! j \<notin> set (clustered_points c)"
    if d: "distinct points_idx" and j: "j < length points_idx" "labels ! j < 0"
      and c: "c \<in> set new" for j c
  proof
    assume in_c: "points_idx ! j \<in> set (clustered_points c)"
    from c obtain i where "c = Node (str i) (pts i) []" unfolding new_eq by auto
    with in_c have "points_idx ! j \<in> set (pts i)" by simp
    then obtain j' where j': "j' < length points_idx" "labels ! j' = int i"
      "points_idx ! j = points_idx ! j'"
      unfolding set_pts by blast
    with d j(1) have "j = j'" by (simp add: nth_eq_iff_index_eq)
    with j' j(2) show False by simp
  qed
  have tree: "progressive_clustering st' = add_children parent_node new (progressive_clustering st)"
    unfolding st' by simp
  have at_parent: "node_at (progressive_clustering st') parent_node
      = Some (Node (name nd) (clustered_points nd) (children nd @ new))"
    if "node_at (progressive_clustering st) parent_node = Some nd" for nd
    using node_at_add_children_below [of parent_node new "progressive_clustering st" "[]"] that
    unfolding tree by simp
  have cnt: "dbscan_performed st' = dbscan_performed st + 1" unfolding st' by simp
  have inv: "invocations st' = invocations st @ [(length parent_node, new_eps, points_idx)]"
    unfolding st' by simp
  have children: "\<forall>i<k. clustered_points (new ! i) \<noteq> [] \<and>
         set (clustered_points (new ! i))
           = {points_idx ! j | j. j < length points_idx \<and> labels ! j = int i}"
    using nth_new nonempty set_pts by simp
  have new_eq': "new = map (\<lambda>i. Node (str i)
                   (map ((!) points_idx)
                      (filter (\<lambda>j. labels ! j = int i) [0..<length points_idx])) [])
                [0..<k]"
    unfolding new_eq pts_def ..
  show ?thesis
    apply (rule exI [of _ sub], rule exI [of _ labels], rule exI [of _ k], rule exI [of _ new])
    apply (intro conjI)
    subgoal by (rule sub)
    subgoal by (rule labels)
    subgoal by (rule len)
    subgoal by (rule labs)
    subgoal by (rule new_eq')
    subgoal by (rule tree)
    subgoal using at_parent by blast
    subgoal by (rule cnt)
    subgoal by (rule inv)
    subgoal by (rule children)
    subgoal using noise by blast
    done
qed

theorem run_dbscan_on_node_children_witness:
  "primitive_contract example_cluster
   \<and> (\<exists>st'. run_dbscan_on_node example_cluster example_state [0, 1, 2, 3, 4] (1 / 4) [] = Inr st'
      \<and> example_cluster example_matrix (1 / 4) 2 = Inr [0, 0, 1, 1, - 1]
      \<and> children (progressive_clustering st') = [Node ''0'' [0, 1] [], Node ''1'' [2, 3] []]
      \<and> dbscan_performed st' = dbscan_performed example_state + 1
      \<and> dbscan_performed st' = 1)"
proof -
  have "map_sum id (\<lambda>s. (children (progressive_clustering s), dbscan_performed s))
      (run_dbscan_on_node example_cluster example_state [0, 1, 2, 3, 4] (1 / 4) [])
      = Inr ([Node ''0'' [0, 1] [], Node ''1'' [2, 3] []], 1)"
    by code_simp
  then obtain st' where
    h: "run_dbscan_on_node example_cluster example_state [0, 1, 2, 3, 4] (1 / 4) [] = Inr st'"
    and c: "children (progressive_clustering st') = [Node ''0'' [0, 1] [], Node ''1'' [2, 3] []]"
    and n: "dbscan_performed st' = 1"
    by (cases "run_dbscan_on_node example_cluster example_state [0, 1, 2, 3, 4] (1 / 4) []") auto
  have l: "example_cluster example_matrix (1 / 4) 2 = Inr [0, 0, 1, 1, - 1]"
    by (simp add: example_cluster_def example_matrix_def example_positions_def)
  from run_dbscan_on_node_children [OF example_cluster_contract h]
  have "dbscan_performed st' = dbscan_performed example_state + 1" by blast
  with example_cluster_contract h l c n show ?thesis by blast
qed

text \<open>C7. Overlap resolution does not depend on the order in which the non-root nodes are
  processed, nor on how often a node is processed: any list of nodes that names every
  descendant of the root leaves the same tree as the deepest-first list of the source.
  Subtracting the same points twice changes nothing, and so does processing a node twice.
  The nesting of the points before resolution is not needed for this.\<close>

theorem overlap_resolution_order_independent:
  assumes "set ps = set (descendants (progressive_clustering st))"
  shows "st\<lparr> progressive_clustering := fold remove_from_parents ps (progressive_clustering st) \<rparr>
           = remove_child_cluster_points_from_parents st
       \<and> py_difference (py_difference xs ys) ys = py_difference xs ys
       \<and> remove_from_parents p (remove_from_parents p t) = remove_from_parents p t"
proof -
  have "set ps = set (sort_key (\<lambda>x. - int (length x)) (descendants (progressive_clustering st)))"
    using assms by simp
  then have "fold remove_from_parents ps (progressive_clustering st)
      = fold remove_from_parents
          (sort_key (\<lambda>x. - int (length x)) (descendants (progressive_clustering st)))
          (progressive_clustering st)"
    by (rule fold_remove_set_eq)
  then have "st\<lparr> progressive_clustering := fold remove_from_parents ps (progressive_clustering st) \<rparr>
           = remove_child_cluster_points_from_parents st"
    by (simp add: remove_child_cluster_points_from_parents_def)
  moreover have "py_difference (py_difference xs ys) ys = py_difference xs ys"
    by (simp add: py_difference_def distinct_remdups_id)
  moreover have "fold remove_from_parents [p, p] t = fold remove_from_parents [p] t"
    by (rule fold_remove_set_eq) simp
  then have "remove_from_parents p (remove_from_parents p t) = remove_from_parents p t"
    by simp
  ultimately show ?thesis by simp
qed

theorem overlap_resolution_order_independent_witness:
  "set [[0], [0, 1], [0, 0], [0, 1]]
     = set (descendants (progressive_clustering
              (example_state\<lparr> progressive_clustering := example_tree \<rparr>)))
   \<and> fold remove_from_parents [[0], [0, 1], [0, 0], [0, 1]] example_tree
     = Node '''' [] [Node ''0'' [4] [Node ''0'' [0, 1] [], Node ''1'' [2, 3] []]]
   \<and> progressive_clustering (remove_child_cluster_points_from_parents
         (example_state\<lparr> progressive_clustering := example_tree \<rparr>))
     = Node '''' [] [Node ''0'' [4] [Node ''0'' [0, 1] [], Node ''1'' [2, 3] []]]"
proof -
  let ?st = "example_state\<lparr> progressive_clustering := example_tree \<rparr>"
  have d: "descendants example_tree = [[0], [0, 0], [0, 1]]"
    by code_simp
  have t: "progressive_clustering ?st = example_tree"
    by simp
  have h: "set [[0], [0, 1], [0, 0], [0, 1]] = set (descendants (progressive_clustering ?st))"
    unfolding t d by auto
  have f: "fold remove_from_parents [[0], [0, 1], [0, 0], [0, 1]] example_tree
     = Node '''' [] [Node ''0'' [4] [Node ''0'' [0, 1] [], Node ''1'' [2, 3] []]]"
    by code_simp
  from overlap_resolution_order_independent [OF h]
  have "?st\<lparr> progressive_clustering :=
           fold remove_from_parents [[0], [0, 1], [0, 0], [0, 1]] (progressive_clustering ?st) \<rparr>
         = remove_child_cluster_points_from_parents ?st"
    by (rule conjunct1)
  then have "progressive_clustering (remove_child_cluster_points_from_parents ?st)
     = progressive_clustering (?st\<lparr> progressive_clustering :=
           fold remove_from_parents [[0], [0, 1], [0, 0], [0, 1]] (progressive_clustering ?st) \<rparr>)"
    by (rule arg_cong [OF sym])
  also have "\<dots> = fold remove_from_parents [[0], [0, 1], [0, 0], [0, 1]] example_tree"
    by simp
  finally show ?thesis using h f by simp
qed




text \<open>C9 (as amended). Construction fails exactly when the minimum-neighbour count is
  neither an instance of Python's \<^verbatim>\<open>int\<close> with a value greater than zero nor the truth value
  \<^verbatim>\<open>True\<close>, and the assertion error is the only failure. So every value that is not a
  positive integer makes the construction fail, except \<^verbatim>\<open>True\<close>, which is accepted as the
  count 1; and every positive integer makes it succeed, except the positive integers of
  numpy, which are refused. A failed construction returns no state on which clustering work
  could have been done; a successful one has the counter of primitive invocations at zero,
  an empty history of invocations and a tree that is the bare root.\<close>

theorem init_validates_min_points:
  "((init dm original_epsilon mp update_epsilon = Inl AssertionError)
      = (\<not> ((\<exists>k. mp = PyInt k \<and> 0 < k) \<or> mp = PyBool True)))
   \<and> (\<forall>err. init dm original_epsilon mp update_epsilon = Inl err \<longrightarrow> err = AssertionError)
   \<and> (\<forall>st. init dm original_epsilon mp update_epsilon = Inr st \<longrightarrow>
          (mp = PyInt (min_points st) \<or> mp = PyBool True \<and> min_points st = 1)
          \<and> 0 < min_points st \<and> dbscan_performed st = 0 \<and> invocations st = []
          \<and> progressive_clustering st = Node '''' [] [] \<and> clusters st = None
          \<and> distance_matrix st = dm \<and> epsilon st = original_epsilon)
   \<and> (\<not> positive_integer mp \<and> mp \<noteq> PyBool True \<longrightarrow>
          init dm original_epsilon mp update_epsilon = Inl AssertionError)
   \<and> (positive_integer mp \<and> (\<forall>k. mp \<noteq> PyNumpyInt k) \<longrightarrow>
          (\<exists>st. init dm original_epsilon mp update_epsilon = Inr st))"
  by (cases mp) (auto simp: init_def positive_integer_def)

theorem init_validates_min_points_witness:
  "positive_integer (PyInt 2)
   \<and> init example_matrix (1 / 2) (PyInt 2) None = Inr example_state
   \<and> min_points example_state = 2
   \<and> dbscan_performed example_state = 0
   \<and> invocations example_state = []
   \<and> progressive_clustering example_state = Node '''' [] []
   \<and> \<not> positive_integer (PyInt 0)
   \<and> init example_matrix (1 / 2) (PyInt 0) None = Inl AssertionError
   \<and> \<not> positive_integer (PyFloat (5 / 2))
   \<and> init example_matrix (1 / 2) (PyFloat (5 / 2)) None = Inl AssertionError
   \<and> \<not> positive_integer (PyNumpyInt (- 3))
   \<and> init example_matrix (1 / 2) (PyNumpyInt (- 3)) None = Inl AssertionError"
  using init_validates_min_points [of example_matrix "1 / 2" "PyInt 2" None]
    init_validates_min_points [of example_matrix "1 / 2" "PyInt 0" None]
    init_validates_min_points [of example_matrix "1 / 2" "PyFloat (5 / 2)" None]
    init_validates_min_points [of example_matrix "1 / 2" "PyNumpyInt (- 3)" None]
    init_example
  by (simp add: positive_integer_def example_state_def)

text \<open>C9 as stated fails in both directions. The numpy integer 3 is a positive integer, and
  the construction fails. The truth value \<^verbatim>\<open>True\<close> is not an integer, and the construction
  succeeds.\<close>

theorem init_validates_min_points_counterexample:
  "positive_integer (PyNumpyInt 3)
   \<and> init example_matrix (1 / 2) (PyNumpyInt 3) None = Inl AssertionError
   \<and> \<not> positive_integer (PyBool True)
   \<and> (\<exists>st. init example_matrix (1 / 2) (PyBool True) None = Inr st \<and> min_points st = 1)"
  by (simp add: positive_integer_def init_def)

text \<open>C10. Whatever \<open>max_depth\<close> is, a run of \<open>fit\<close> that returns clusters has first
  invoked the primitive on the sub-matrix of the full point set with the original radius,
  and has appended its clusters to the children of the root: one node for every integer
  \<open>i\<close> from 0 to the largest label, which owns the indices that carry the label \<open>i\<close>. This
  invocation is the first that the run adds to the history, and the nodes it created are in
  the final tree. When \<open>max_depth\<close> is at most 1 (0 included) it is the only invocation, and
  the result is the extraction from the tree it built: on an instance whose tree is the bare
  root, the returned clusters are those of this invocation that have at least \<open>min_points\<close>
  indices, in the order of their labels.\<close>

theorem initial_invocation_unconditional:
  assumes "fit cluster st md = Some (Inr (st', cl))"
  shows "\<exists>sub labels new st1 es.
      submatrix (distance_matrix st) [0..<n_points st] = Inr sub
    \<and> cluster sub (epsilon st) (min_points st) = Inr labels
    \<and> new = map (\<lambda>i. Node (str i) (filter (\<lambda>j. labels ! j = int i) [0..<length labels]) [])
                 [0..<nat (Max (set labels) + 1)]
    \<and> run_dbscan_on_node cluster st [0..<n_points st] (epsilon st) [] = Inr st1
    \<and> progressive_clustering st1 =
         Node (name (progressive_clustering st)) (clustered_points (progressive_clustering st))
              (children (progressive_clustering st) @ new)
    \<and> invocations st' = invocations st @ (0, epsilon st, [0..<n_points st]) # es
    \<and> dbscan_performed st' = dbscan_performed st + 1 + length es
    \<and> set (descendants (progressive_clustering st1))
         \<subseteq> set (descendants (progressive_clustering st'))
    \<and> (\<forall>i<length new. [length (children (progressive_clustering st)) + i]
                          \<in> set (descendants (progressive_clustering st')))
    \<and> (\<forall>k\<le>1. md = MaxDepth k \<longrightarrow>
          es = [] \<and> (st', cl) = extraction (remove_child_cluster_points_from_parents st1)
          \<and> (children (progressive_clustering st) = []
               \<and> clustered_points (progressive_clustering st) = [] \<longrightarrow>
                cl = filter (\<lambda>pts. min_points st \<le> int (length pts))
                            (map clustered_points new)))"
proof -
  let ?n = "n_points st"
  let ?t = "progressive_clustering st"
  from assms obtain st1 es where
    1: "run_dbscan_on_node cluster st [0..<?n] (epsilon st) [] = Inr st1" and
    inv: "invocations st' = invocations st @ (0, epsilon st, [0..<?n]) # es" and
    cnt: "dbscan_performed st' = dbscan_performed st + 1 + length es" and
    es: "\<forall>x\<in>set es. 1 \<le> fst x \<and> \<not> depth_reached (fst x) md \<and>
        fst (snd x) = (update_epsilon_func st ^^ fst x) (epsilon st)" and
    sub: "set (descendants (progressive_clustering st1))
        \<subseteq> set (descendants (progressive_clustering st'))"
    by (rule fit_effect)
  from 1 obtain sub labels m new where
    sm: "submatrix (distance_matrix st) [0..<?n] = Inr sub" and
    labels: "cluster sub (epsilon st) (min_points st) = Inr labels" and
    m: "py_max labels = Inr m" and
    new: "cluster_nodes [0..<?n] labels [0..<nat (m + 1)] = Inr new" and
    st1: "st1 = st\<lparr> dbscan_performed := dbscan_performed st + 1,
              invocations := invocations st @ [(length ([] :: path), epsilon st, [0..<?n])],
              progressive_clustering := add_children [] new ?t \<rparr>"
    by (rule run_dbscan_on_node_Inr)
  from py_max_Inr [OF m] have mx: "m = Max (set labels)" by simp
  from cluster_nodes_Inr [OF new] have
    new_eq: "new = map (\<lambda>i. Node (str i) (map ((!) [0..<?n]) (local_idx labels i)) [])
                       [0..<nat (m + 1)]" and
    inr: "\<forall>i\<in>set [0..<nat (m + 1)]. \<forall>k\<in>set (local_idx labels i). k < length [0..<?n]"
    by simp_all
  have own: "map ((!) [0..<?n]) (local_idx labels i)
      = filter (\<lambda>j. labels ! j = int i) [0..<length labels]"
    if "i \<in> set [0..<nat (m + 1)]" for i
  proof -
    from inr that have "\<forall>k\<in>set (local_idx labels i). [0..<?n] ! k = k" by simp
    then have "map ((!) [0..<?n]) (local_idx labels i) = local_idx labels i"
      by (simp add: map_idI)
    then show ?thesis by (simp add: local_idx_def)
  qed
  have new_own: "new = map (\<lambda>i. Node (str i)
        (filter (\<lambda>j. labels ! j = int i) [0..<length labels]) [])
      [0..<nat (Max (set labels) + 1)]"
    unfolding new_eq mx [symmetric] by (rule map_cong [OF refl]) (simp only: own)
  have tree: "progressive_clustering st1
      = Node (name ?t) (clustered_points ?t) (children ?t @ new)"
    unfolding st1 by (cases ?t) simp
  have paths: "[length (children ?t) + i] \<in> set (descendants (progressive_clustering st'))"
    if "i < length new" for i
  proof -
    from that have "[length (children ?t) + i] \<in> set (descendants (progressive_clustering st1))"
      unfolding set_descendants tree by simp
    with sub show ?thesis by blast
  qed
  have shallow: "es = [] \<and> (st', cl) = extraction (remove_child_cluster_points_from_parents st1)
      \<and> (children ?t = [] \<and> clustered_points ?t = [] \<longrightarrow>
            cl = filter (\<lambda>pts. min_points st \<le> int (length pts)) (map clustered_points new))"
    if k: "k \<le> 1" and md: "md = MaxDepth k" for k
  proof (intro conjI impI)
    show "es = []"
    proof (cases es)
      case (Cons x xs)
      with es have "1 \<le> fst x" "\<not> depth_reached (fst x) md" by simp_all
      with k md show ?thesis by simp
    qed simp
    from assms fit_shallow [OF k, of cluster st] 1 md
    show res: "(st', cl) = extraction (remove_child_cluster_points_from_parents st1)"
      by simp
    assume "children ?t = [] \<and> clustered_points ?t = []"
    with tree have bare: "progressive_clustering st1 = Node (name ?t) [] new" by simp
    from res [symmetric]
    have "cl = snd (extraction (remove_child_cluster_points_from_parents st1))"
      by simp
    also have "\<dots> = filter (\<lambda>pts. min_points st1 \<le> int (length pts)) (map clustered_points new)"
      using bare cluster_nodes_leaves [OF new] by (rule extraction_leaves)
    finally show "cl = filter (\<lambda>pts. min_points st \<le> int (length pts))
        (map clustered_points new)"
      unfolding st1 by simp
  qed
  show ?thesis
    apply (rule exI [of _ sub], rule exI [of _ labels], rule exI [of _ new],
        rule exI [of _ st1], rule exI [of _ es])
    apply (intro conjI)
    subgoal by (rule sm)
    subgoal by (rule labels)
    subgoal by (rule new_own)
    subgoal by (rule 1)
    subgoal by (rule tree)
    subgoal by (rule inv)
    subgoal by (rule cnt)
    subgoal by (rule sub)
    subgoal using paths by blast
    subgoal using shallow by blast
    done
qed

theorem initial_invocation_unconditional_witness:
  "\<exists>st'. fit example_cluster (example_state\<lparr>epsilon := 1 / 4\<rparr>) (MaxDepth 0)
            = Some (Inr (st', [[0, 1], [2, 3]]))
     \<and> example_cluster example_matrix (1 / 4) 2 = Inr [0, 0, 1, 1, - 1]
     \<and> dbscan_performed st' = 1
     \<and> invocations st' = [(0, 1 / 4, [0, 1, 2, 3, 4])]
     \<and> progressive_clustering st' = Node '''' [] [Node ''0'' [0, 1] [], Node ''1'' [2, 3] []]
     \<and> (\<exists>st1. run_dbscan_on_node example_cluster (example_state\<lparr>epsilon := 1 / 4\<rparr>)
                  [0..<n_points example_state] (1 / 4) [] = Inr st1
            \<and> (st', [[0, 1], [2, 3]])
                = extraction (remove_child_cluster_points_from_parents st1))"
proof -
  let ?s = "example_state\<lparr>epsilon := 1 / 4\<rparr>"
  have "observe (fit example_cluster ?s (MaxDepth 0)) =
       Some (Inr (Node '''' [] [Node ''0'' [0, 1] [], Node ''1'' [2, 3] []], 1,
                  [(0, 1 / 4, [0, 1, 2, 3, 4])], [[0, 1], [2, 3]]))"
    by code_simp
  then obtain st' where
    h: "fit example_cluster ?s (MaxDepth 0) = Some (Inr (st', [[0, 1], [2, 3]]))"
    and t: "progressive_clustering st' = Node '''' [] [Node ''0'' [0, 1] [], Node ''1'' [2, 3] []]"
    and n: "dbscan_performed st' = 1"
    and i: "invocations st' = [(0, 1 / 4, [0, 1, 2, 3, 4])]"
    by (rule observe_Inr)
  have l: "example_cluster example_matrix (1 / 4) 2 = Inr [0, 0, 1, 1, - 1]"
    by (simp add: example_cluster_def example_matrix_def example_positions_def)
  from initial_invocation_unconditional [OF h] obtain st1 where
    1: "run_dbscan_on_node example_cluster ?s [0..<n_points ?s] (epsilon ?s) [] = Inr st1"
    and 2: "\<forall>k\<le>1. MaxDepth 0 = MaxDepth k \<longrightarrow>
        (st', [[0, 1], [2, 3]]) = extraction (remove_child_cluster_points_from_parents st1)"
    by blast
  from 2 have 3: "(st', [[0, 1], [2, 3]])
      = extraction (remove_child_cluster_points_from_parents st1)"
    by simp
  from 1 have 4: "run_dbscan_on_node example_cluster ?s [0..<n_points example_state] (1 / 4) []
      = Inr st1" by simp
  from h l n i t 4 3 show ?thesis by blast
qed

end
